theory Spec2Isabelle
  imports Main
begin

section \<open>Strings of code points\<close>

text \<open>
  The program is Python 3: a \<open>str\<close> is a sequence of Unicode code points, and
  \<open>len\<close>, indexing, \<open>strip\<close>, \<open>endswith\<close> and the \<open>re\<close> module all work on code
  points. A code point is modelled as a natural number and a string as a list of them.
\<close>

type_synonym codepoint = nat
type_synonym ustr = "codepoint list"

text \<open>\<open>str.isspace\<close> for one character; also the class \<open>\s\<close> of \<open>re\<close> on \<open>str\<close> patterns.\<close>

definition is_space :: "codepoint \<Rightarrow> bool" where
  "is_space c \<longleftrightarrow>
     (9 \<le> c \<and> c \<le> 13) \<or> (28 \<le> c \<and> c \<le> 32) \<or> c = 0x85 \<or> c = 0xA0 \<or> c = 0x1680 \<or>
     (0x2000 \<le> c \<and> c \<le> 0x200A) \<or> c = 0x2028 \<or> c = 0x2029 \<or> c = 0x202F \<or>
     c = 0x205F \<or> c = 0x3000"

text \<open>
  The class \<open>\d\<close> of \<open>re\<close> on \<open>str\<close> patterns: the decimal digits of Unicode (category Nd),
  here as of Unicode 14. Each entry is the code point of a digit zero; the nine code
  points after it are the digits one to nine of the same script. The proofs below use
  only that the ASCII digits are decimal digits, that no whitespace character and
  neither the full stop nor the line feed is one, and, for the examples, that the CJK
  ideographs are not.
\<close>

definition decimal_zeros :: "codepoint list" where
  "decimal_zeros =
     [0x30, 0x660, 0x6F0, 0x7C0, 0x966, 0x9E6, 0xA66, 0xAE6, 0xB66, 0xBE6, 0xC66, 0xCE6,
      0xD66, 0xDE6, 0xE50, 0xED0, 0xF20, 0x1040, 0x1090, 0x17E0, 0x1810, 0x1946, 0x19D0,
      0x1A80, 0x1A90, 0x1B50, 0x1BB0, 0x1C40, 0x1C50, 0xA620, 0xA8D0, 0xA900, 0xA9D0,
      0xA9F0, 0xAA50, 0xABF0, 0xFF10, 0x104A0, 0x10D30, 0x11066, 0x110F0, 0x11136,
      0x111D0, 0x112F0, 0x11450, 0x114D0, 0x11650, 0x116C0, 0x11730, 0x118E0, 0x11950,
      0x11C50, 0x11D50, 0x11DA0, 0x16A60, 0x16AC0, 0x16B50, 0x1D7CE, 0x1D7D8, 0x1D7E2,
      0x1D7EC, 0x1D7F6, 0x1E140, 0x1E2F0, 0x1E950, 0x1FBF0]"

definition is_decimal :: "codepoint \<Rightarrow> bool" where
  "is_decimal c \<longleftrightarrow> list_ex (\<lambda>z. z \<le> c \<and> c < z + 10) decimal_zeros"

text \<open>\<open>str.isascii\<close> for one character.\<close>

definition isascii :: "codepoint \<Rightarrow> bool" where
  "isascii c \<longleftrightarrow> c < 128"

text \<open>\<open>str.lstrip()\<close>, \<open>str.rstrip()\<close> and \<open>str.strip()\<close> without argument.\<close>

definition lstrip :: "ustr \<Rightarrow> ustr" where
  "lstrip s = dropWhile is_space s"

definition rstrip :: "ustr \<Rightarrow> ustr" where
  "rstrip s = rev (dropWhile is_space (rev s))"

definition strip :: "ustr \<Rightarrow> ustr" where
  "strip s = lstrip (rstrip s)"

text \<open>\<open>str.rstrip(chars)\<close>: removes trailing characters that occur in \<open>chars\<close>.\<close>

definition rstrip_chars :: "ustr \<Rightarrow> ustr \<Rightarrow> ustr" where
  "rstrip_chars chars s = rev (dropWhile (\<lambda>c. c \<in> set chars) (rev s))"

text \<open>\<open>s.endswith(t)\<close> for a string \<open>t\<close>, and for a tuple of strings.\<close>

definition endswith :: "'a list \<Rightarrow> 'a list \<Rightarrow> bool" where
  "endswith s t \<longleftrightarrow> length t \<le> length s \<and> drop (length s - length t) s = t"

definition endswith_any :: "'a list \<Rightarrow> 'a list list \<Rightarrow> bool" where
  "endswith_any s ts \<longleftrightarrow> list_ex (endswith s) ts"

section \<open>The two regular expressions\<close>

text \<open>
  \<open>re\<close> is a backtracking matcher: alternatives are tried left to right and a repetition
  tries the longest run first. A pattern is run on the rest of the input and returns the
  rests that remain after each way of matching, in the order in which \<open>re\<close> tries them.
  \<open>re.match\<close> succeeds when there is such a rest, and the match it reports is the first.
  Both patterns of the program start with \<open>^\<close> and are used without flags, so they match
  at the start of the string only; the anchor is therefore left out of the pattern and
  matching always starts at the first character.
\<close>

datatype rx =
    Cls "codepoint \<Rightarrow> bool"
  | Star "codepoint \<Rightarrow> bool"
  | Plus "codepoint \<Rightarrow> bool"
  | Eol
  | Seq rx rx
  | Alt rx rx

fun star_rests :: "(codepoint \<Rightarrow> bool) \<Rightarrow> ustr \<Rightarrow> ustr list" where
  "star_rests P [] = [[]]"
| "star_rests P (c # cs) = (if P c then star_rests P cs @ [c # cs] else [c # cs])"

text \<open>\<open>$\<close> without flags matches at the end and before a newline that ends the string.\<close>

fun rests :: "rx \<Rightarrow> ustr \<Rightarrow> ustr list" where
  "rests (Cls P) s = (case s of [] \<Rightarrow> [] | c # cs \<Rightarrow> if P c then [cs] else [])"
| "rests (Star P) s = star_rests P s"
| "rests (Plus P) s = (case s of [] \<Rightarrow> [] | c # cs \<Rightarrow> if P c then star_rests P cs else [])"
| "rests Eol s = (if s = [] \<or> s = [10] then [s] else [])"
| "rests (Seq a b) s = concat (map (rests b) (rests a s))"
| "rests (Alt a b) s = rests a s @ rests b s"

definition re_match :: "rx \<Rightarrow> ustr \<Rightarrow> bool" where
  "re_match r s \<longleftrightarrow> rests r s \<noteq> []"

text \<open>
  \<open>re.sub(r, '', s)\<close> for a pattern \<open>r\<close> anchored with \<open>^\<close> that cannot match the empty
  string: the only match is at the start, and it is cut off.
\<close>

definition re_sub_empty :: "rx \<Rightarrow> ustr \<Rightarrow> ustr" where
  "re_sub_empty r s = (case rests r s of [] \<Rightarrow> s | rest # _ \<Rightarrow> rest)"

text \<open>\<open>r'^\s*\d+(\.|$)'\<close>\<close>

definition numeric_marker :: rx where
  "numeric_marker = Seq (Star is_space) (Seq (Plus is_decimal) (Alt (Cls (\<lambda>c. c = 0x2E)) Eol))"

text \<open>What may follow the digits of a numeric marker: a full stop or the end of the text.\<close>

definition marker_end :: "ustr \<Rightarrow> bool" where
  "marker_end r \<longleftrightarrow> r = [] \<or> r = [10] \<or> hd r = 0x2E"

text \<open>\<open>r'^[\d\.]+\s*'\<close>\<close>

definition numbering_prefix :: rx where
  "numbering_prefix = Seq (Plus (\<lambda>c. is_decimal c \<or> c = 0x2E)) (Star is_space)"

section \<open>The document\<close>

text \<open>
  The document library keeps the file as a tree of elements that the program changes in
  place, through paragraph objects that hold a reference to their element. The tree is
  modelled as a store indexed by element identity: every element has a tag, its list of
  child elements and its parent (\<open>getparent()\<close>, \<open>None\<close> for a detached element).

  A paragraph element (\<open>w:p\<close>) has two kinds of content. Its own children (the property
  element \<open>w:pPr\<close>, the runs \<open>w:r\<close>, bookmarks, ...) are values: a tag and, for a run, its
  text. A run that holds text boxes is, in addition, an element of the store, with the
  tag \<open>w:r\<close>: these runs are the \<open>kids\<close> of the paragraph, and the text-box regions
  (\<open>w:txbxContent\<close>) in a run are the \<open>kids\<close> of the run. The drawing elements between
  a run and its regions are left out.

  The document library and the translation client are not part of the program. Their
  operations are modelled below by what the program relies on: element identity, child
  order, \<open>getparent\<close>, \<open>remove\<close>, \<open>index\<close>, \<open>insert\<close>, \<open>iter\<close>, deep copy, and the text
  of a paragraph as the text of its runs.
\<close>

type_synonym nid = nat

datatype child = Child (tag: string) (payload: ustr)

datatype error = AttributeError | ValueError | ServiceError

datatype line =
    Merging
  | Error_removing error
  | Merged nat
  | Error_translating ustr error
  | Translating_body
  | Translating_headers_footers
  | Translating_tables
  | Translating_text_boxes
  | Error_in_text_box error
  | Processed nat

record document =
  etag :: "nid \<Rightarrow> string"
  kids :: "nid \<Rightarrow> nid list"
  parent :: "nid \<Rightarrow> nid option"
  content :: "nid \<Rightarrow> child list"
  next_id :: nid
  body :: nid
  sections :: "(nid \<times> nid) list"
  row_cells :: "nid \<Rightarrow> nid list"
  depth :: nat
  console :: "line list"
  calls :: "(nid \<times> ustr) list"

text \<open>
  \<open>next_id\<close> is the identity that the next created element gets; \<open>sections\<close> lists the
  header and the footer element of every section; \<open>row_cells\<close> gives for a table row
  what \<open>row.cells\<close> lists, one cell per grid column, so that a merged cell occurs once for
  every column that it spans (the program never changes the grid of a table); \<open>depth\<close>
  bounds the nesting of the element tree; \<open>console\<close> is what the program has printed;
  \<open>calls\<close> records, for every call of \<open>translator.translate\<close>, the paragraph it was made
  for and the text sent.
\<close>

text \<open>
  The translation service: given the texts sent before and the text sent now, it answers
  with a text or fails.
\<close>

type_synonym translator = "ustr list \<Rightarrow> ustr \<Rightarrow> error + ustr"

subsection \<open>Operations of the document library\<close>

text \<open>The \<open>w:p\<close> children of a container, as \<open>doc.paragraphs\<close> or \<open>cell.paragraphs\<close>.\<close>

definition children_tagged :: "string \<Rightarrow> document \<Rightarrow> nid \<Rightarrow> nid list" where
  "children_tagged t d c = filter (\<lambda>n. etag d n = t) (kids d c)"

definition paragraphs :: "document \<Rightarrow> nid \<Rightarrow> nid list" where
  "paragraphs d c = children_tagged ''w:p'' d c"

text \<open>\<open>Paragraph.text\<close>, read: the texts of the runs, concatenated.\<close>

definition get_text :: "document \<Rightarrow> nid \<Rightarrow> ustr" where
  "get_text d p = concat (map payload (filter (\<lambda>c. tag c = ''w:r'') (content d p)))"

text \<open>
  \<open>Paragraph.text\<close>, assigned a text that the new run stores as it is written: every
  child but \<open>w:pPr\<close> is removed and one run with the text is added. The removed runs
  leave the tree, each on its own, with the text boxes that they hold.
\<close>

definition set_text :: "nid \<Rightarrow> ustr \<Rightarrow> document \<Rightarrow> document" where
  "set_text p t d =
     d\<lparr>content := (content d)(p := filter (\<lambda>c. tag c = ''w:pPr'') (content d p) @ [Child ''w:r'' t]),
       parent := (\<lambda>n. if n \<in> set (kids d p) then None else parent d n),
       kids := (kids d)(p := [])\<rparr>"

text \<open>
  What XML can store, as the tree library checks it when the text of an element is
  assigned: no control character other than tab, line feed and carriage return, no
  surrogate, and neither U+FFFE nor U+FFFF. The assignment of any other text raises
  \<open>ValueError\<close>.
\<close>

definition xml_char :: "codepoint \<Rightarrow> bool" where
  "xml_char c \<longleftrightarrow>
     (c = 9 \<or> c = 10 \<or> c = 13 \<or> 32 \<le> c) \<and> \<not> (0xD800 \<le> c \<and> c \<le> 0xDFFF) \<and> c \<noteq> 0xFFFE \<and> c \<noteq> 0xFFFF"

definition xml_compatible :: "ustr \<Rightarrow> bool" where
  "xml_compatible s \<longleftrightarrow> list_all xml_char s"

text \<open>
  The text of a run, assigned. The document library goes through the characters: a tab
  becomes a tab element and a line feed or a carriage return a break element, each after
  the characters collected since the last one have been stored as a text element; the
  characters left at the end are stored as well. Storing raises when one of the
  characters cannot be stored in XML, and the run is left with what it held before. Read
  back, a tab element is a tab and a break element is a line feed.

  In \<open>add_text held bfr s\<close> the run holds \<open>held\<close> (as it is read back), \<open>bfr\<close> are the
  characters collected and \<open>s\<close> the characters to come; the result is the exception,
  if any, and what the run holds in the end.
\<close>

fun add_text :: "ustr \<Rightarrow> ustr \<Rightarrow> ustr \<Rightarrow> error option \<times> ustr" where
  "add_text held bfr [] =
     (if xml_compatible bfr then (None, held @ bfr) else (Some ValueError, held))"
| "add_text held bfr (c # cs) =
     (if c = 9 \<or> c = 10 \<or> c = 13
      then (if xml_compatible bfr
            then add_text (held @ bfr @ [if c = 9 then 9 else 10]) [] cs
            else (Some ValueError, held))
      else add_text held (bfr @ [c]) cs)"

text \<open>
  \<open>Paragraph.text\<close>, assigned any text: every child but \<open>w:pPr\<close> is removed, one run is
  added, and the text is assigned to the run. When that raises, the paragraph is left
  with the run and what it holds. (The merger is modelled with \<open>set_text\<close>: it assigns
  texts joined from texts of the document, and a carriage return in them is kept as it
  is.)
\<close>

definition assign_text :: "nid \<Rightarrow> ustr \<Rightarrow> document \<Rightarrow> error option \<times> document" where
  "assign_text p t d = (case add_text [] [] t of (e, held) \<Rightarrow> (e, set_text p held d))"

text \<open>\<open>e.getparent().remove(e)\<close>\<close>

definition remove_from_parent :: "nid \<Rightarrow> document \<Rightarrow> error + document" where
  "remove_from_parent e d =
     (case parent d e of
        None \<Rightarrow> Inl AttributeError
      | Some c \<Rightarrow>
          if e \<in> set (kids d c)
          then Inr (d\<lparr>kids := (kids d)(c := remove1 e (kids d c)), parent := (parent d)(e := None)\<rparr>)
          else Inl ValueError)"

text \<open>\<open>c.index(e)\<close>\<close>

fun index_of :: "nid \<Rightarrow> nid list \<Rightarrow> nat option" where
  "index_of e [] = None"
| "index_of e (x # xs) = (if x = e then Some 0 else map_option Suc (index_of e xs))"

text \<open>
  \<open>copy.deepcopy(p_elem)\<close>: a new, detached element with the tag and the children of the
  paragraph. The copies of the runs that hold text boxes are removed by the caller at
  once, as all runs are; they are not allocated.
\<close>

definition deepcopy :: "nid \<Rightarrow> document \<Rightarrow> nid \<times> document" where
  "deepcopy p d =
     (let n = next_id d in
      (n, d\<lparr>etag := (etag d)(n := etag d p), content := (content d)(n := content d p),
            kids := (kids d)(n := []), parent := (parent d)(n := None), next_id := Suc n\<rparr>))"

text \<open>\<open>c.insert(i, e)\<close> for a detached element \<open>e\<close>.\<close>

definition insert_child :: "nid \<Rightarrow> nat \<Rightarrow> nid \<Rightarrow> document \<Rightarrow> document" where
  "insert_child c i e d =
     d\<lparr>kids := (kids d)(c := take i (kids d c) @ [e] @ drop i (kids d c)),
       parent := (parent d)(e := Some c)\<rparr>"

text \<open>
  \<open>e.iter()\<close>: the element and its descendants in document order, down to the given
  number of levels; \<open>e.iter(tag)\<close> keeps the elements with the tag.
\<close>

fun iter :: "nat \<Rightarrow> document \<Rightarrow> nid \<Rightarrow> nid list" where
  "iter 0 d e = [e]"
| "iter (Suc k) d e = e # concat (map (iter k d) (kids d e))"

definition iter_tagged :: "string \<Rightarrow> document \<Rightarrow> nid \<Rightarrow> nid list" where
  "iter_tagged t d e = filter (\<lambda>n. etag d n = t) (iter (depth d) d e)"

text \<open>
  \<open>e.iter(tag)\<close>, consumed one element at a time, as the loop over the text boxes does
  (line 176). The iterator keeps the element that it returns next. Asked for an element,
  it first looks for the one after it, in the tree as it is at that moment, and then
  returns the one it kept. The search goes from an element to its first child; if it has
  none, to its next sibling; if it has none, up through the parents to the next sibling
  of the first of them that has one. It ends when it is back at the element that the
  iteration started from, and when it reaches an element without parent. The way up is
  bounded by the depth of the tree and the search by the number of elements.
\<close>

fun following :: "nid \<Rightarrow> nid list \<Rightarrow> nid option" where
  "following e [] = None"
| "following e (x # xs) =
     (if x = e then (case xs of [] \<Rightarrow> None | y # ys \<Rightarrow> Some y) else following e xs)"

definition next_sibling :: "document \<Rightarrow> nid \<Rightarrow> nid option" where
  "next_sibling d e = (case parent d e of None \<Rightarrow> None | Some c \<Rightarrow> following e (kids d c))"

fun back_off :: "nat \<Rightarrow> document \<Rightarrow> nid \<Rightarrow> nid \<Rightarrow> nid option" where
  "back_off 0 d stop e = None"
| "back_off (Suc k) d stop e =
     (case next_sibling d e of
        Some s \<Rightarrow> Some s
      | None \<Rightarrow>
          (case parent d e of
             None \<Rightarrow> None
           | Some c \<Rightarrow> if c = stop then None else back_off k d stop c))"

definition traverse_to_next :: "document \<Rightarrow> nid \<Rightarrow> nid \<Rightarrow> nid option" where
  "traverse_to_next d stop e =
     (case kids d e of
        c # cs \<Rightarrow> Some c
      | [] \<Rightarrow> if e = stop then None else back_off (depth d) d stop e)"

fun next_tagged :: "nat \<Rightarrow> string \<Rightarrow> document \<Rightarrow> nid \<Rightarrow> nid \<Rightarrow> nid option" where
  "next_tagged 0 t d stop e = None"
| "next_tagged (Suc k) t d stop e =
     (case traverse_to_next d stop e of
        None \<Rightarrow> None
      | Some n \<Rightarrow> if etag d n = t then Some n else next_tagged k t d stop n)"

text \<open>The element that the iterator keeps when it is made, and the one after an element.\<close>

definition iter_first :: "string \<Rightarrow> document \<Rightarrow> nid \<Rightarrow> nid option" where
  "iter_first t d stop = (if etag d stop = t then Some stop else next_tagged (next_id d) t d stop stop)"

definition iter_next :: "string \<Rightarrow> document \<Rightarrow> nid \<Rightarrow> nid \<Rightarrow> nid option" where
  "iter_next t d stop e = next_tagged (next_id d) t d stop e"

definition print :: "line \<Rightarrow> document \<Rightarrow> document" where
  "print l d = d\<lparr>console := console d @ [l]\<rparr>"

section \<open>The paragraph merger: \<open>merge_paragraphs\<close>\<close>

definition terminators :: "ustr list" where
  "terminators =
     [[0x3002], [0xFF1F], [0xFF01], [0xFF1A], [0x3A], [0x3B], [0xFF1B], [0x29], [0xFF09],
      [0x201D], [0x22]]"

definition is_terminated :: "ustr \<Rightarrow> bool" where
  "is_terminated last_text \<longleftrightarrow> endswith_any last_text terminators"

definition starts_with_number :: "ustr \<Rightarrow> bool" where
  "starts_with_number text \<longleftrightarrow> re_match numeric_marker text"

definition last_is_header :: "ustr \<Rightarrow> bool" where
  "last_is_header last_text \<longleftrightarrow> re_match numeric_marker last_text \<and> length last_text < 40"

definition sep :: "ustr \<Rightarrow> ustr \<Rightarrow> ustr" where
  "sep last_text text = (if isascii (last last_text) \<and> isascii (hd text) then [0x20] else [])"

text \<open>
  One round of the loop, for the paragraph \<open>curr_p\<close>. The state of the loop is the
  paragraph \<open>last_p\<close>, the counter \<open>merged_count\<close> and the document. \<open>last\<close> and \<open>hd\<close>
  are only applied to texts that the two checks before have found non-empty.
\<close>

definition merge_step :: "nid \<Rightarrow> nid \<times> nat \<times> document \<Rightarrow> nid \<times> nat \<times> document" where
  "merge_step curr_p st =
     (case st of (last_p, merged_count, d) \<Rightarrow>
        let text = strip (get_text d curr_p);
            last_text = strip (get_text d last_p)
        in if text = [] then (curr_p, merged_count, d)
           else if last_text = [] then (curr_p, merged_count, d)
           else if \<not> is_terminated last_text \<and> \<not> starts_with_number text \<and> \<not> last_is_header last_text
           then
             let d1 = set_text last_p (rstrip (get_text d last_p) @ sep last_text text @ lstrip text) d
             in (case remove_from_parent curr_p d1 of
                   Inr d2 \<Rightarrow> (last_p, merged_count + 1, d2)
                 | Inl e \<Rightarrow> (last_p, merged_count, print (Error_removing e) d1))
           else (curr_p, merged_count, d))"

fun merge_loop :: "nid list \<Rightarrow> nid \<times> nat \<times> document \<Rightarrow> nid \<times> nat \<times> document" where
  "merge_loop [] st = st"
| "merge_loop (curr_p # ps) st = merge_loop ps (merge_step curr_p st)"

definition merge_paragraphs :: "document \<Rightarrow> document" where
  "merge_paragraphs doc =
     (let d = print Merging doc in
      case paragraphs d (body d) of
        [] \<Rightarrow> d
      | p0 # ps \<Rightarrow>
          (case merge_loop ps (p0, 0, d) of (last_p, merged_count, d') \<Rightarrow> print (Merged merged_count) d'))"

section \<open>The translation inserter: \<open>translate_paragraph_element\<close>\<close>

text \<open>
  The body of the \<open>try\<close> statement. It returns the exception that left it, if any, and
  the document as it is at that moment. The translation call can raise, and so can the
  assignment of the new text to a header-style paragraph (line 83), the assignment of
  the text to the new run (line 122) and the insertion (line 127).
\<close>

definition ends_with_r :: "string \<Rightarrow> bool" where
  "ends_with_r t \<longleftrightarrow> endswith t ''r''"

definition clean_translation :: "ustr \<Rightarrow> ustr" where
  "clean_translation translated_text = re_sub_empty numbering_prefix translated_text"

definition translate_try :: "translator \<Rightarrow> nid \<Rightarrow> ustr \<Rightarrow> document \<Rightarrow> error option \<times> document" where
  "translate_try translator p text d =
     (let is_header_colon = (endswith text [0xFF1A] \<or> endswith text [0x3A]);
          text_to_translate = rstrip_chars [0xFF1A, 0x3A] text;
          d1 = d\<lparr>calls := calls d @ [(p, text_to_translate)]\<rparr>
      in case translator (map snd (calls d)) text_to_translate of
           Inl e \<Rightarrow> (Some e, d1)
         | Inr result_text \<Rightarrow>
             let translated_text = strip result_text
             in if is_header_colon
                then assign_text p (text_to_translate @ [0x28] @ translated_text @ [0x29, 0x3A]) d1
                else
                  let cleaned_translation = clean_translation translated_text;
                      parent_elem = parent d1 p;
                      (new_p_elem, d2) = deepcopy p d1;
                      d3 = d2\<lparr>content := (content d2)(new_p_elem :=
                                filter (\<lambda>c. \<not> ends_with_r (tag c)) (content d2 new_p_elem))\<rparr>
                  in if \<not> xml_compatible cleaned_translation then (Some ValueError, d3)
                     else
                       let d4 = d3\<lparr>content := (content d3)(new_p_elem :=
                                     content d3 new_p_elem @ [Child ''w:r'' cleaned_translation])\<rparr>
                       in (case parent_elem of
                             None \<Rightarrow> (Some AttributeError, d4)
                           | Some c \<Rightarrow>
                               (case index_of p (kids d4 c) of
                                  None \<Rightarrow> (Some ValueError, d4)
                                | Some i \<Rightarrow> (None, insert_child c (i + 1) new_p_elem d4))))"

definition translate_paragraph_element :: "translator \<Rightarrow> nid \<Rightarrow> document \<Rightarrow> document" where
  "translate_paragraph_element translator p d =
     (let text = strip (get_text d p)
      in if text = [] then d
         else case translate_try translator p text d of
                (None, d') \<Rightarrow> d'
              | (Some e, d') \<Rightarrow> print (Error_translating (take 20 text) e) d')"

section \<open>The whole run: \<open>translate_and_format\<close>\<close>

fun process_paragraph_list :: "translator \<Rightarrow> nid list \<Rightarrow> document \<Rightarrow> document" where
  "process_paragraph_list translator [] d = d"
| "process_paragraph_list translator (p # ps) d =
     process_paragraph_list translator ps
       (if strip (get_text d p) \<noteq> [] then translate_paragraph_element translator p d else d)"

text \<open>
  \<open>doc.tables\<close> and \<open>table.rows\<close>: the table children of the body and the row children
  of a table. \<open>row.cells\<close> is \<open>row_cells\<close>.
\<close>

definition tables :: "document \<Rightarrow> nid list" where
  "tables d = children_tagged ''w:tbl'' d (body d)"

definition rows :: "document \<Rightarrow> nid \<Rightarrow> nid list" where
  "rows d t = children_tagged ''w:tr'' d t"

text \<open>
  The loops of steps 3 and 4. Each collection is read from the document when its loop
  starts, as the properties of the document library do.
\<close>

fun process_sections :: "translator \<Rightarrow> (nid \<times> nid) list \<Rightarrow> document \<Rightarrow> document" where
  "process_sections translator [] d = d"
| "process_sections translator ((header, footer) # ss) d =
     process_sections translator ss
       (let d' = process_paragraph_list translator (paragraphs d header) d
        in process_paragraph_list translator (paragraphs d' footer) d')"

fun process_cells :: "translator \<Rightarrow> nid list \<Rightarrow> document \<Rightarrow> document" where
  "process_cells translator [] d = d"
| "process_cells translator (cell # cs) d =
     process_cells translator cs (process_paragraph_list translator (paragraphs d cell) d)"

fun process_rows :: "translator \<Rightarrow> nid list \<Rightarrow> document \<Rightarrow> document" where
  "process_rows translator [] d = d"
| "process_rows translator (row # rs) d =
     process_rows translator rs (process_cells translator (row_cells d row) d)"

fun process_tables :: "translator \<Rightarrow> nid list \<Rightarrow> document \<Rightarrow> document" where
  "process_tables translator [] d = d"
| "process_tables translator (table # ts) d =
     process_tables translator ts (process_rows translator (rows d table) d)"

text \<open>
  The loops of step 5. The outer loop takes the regions from the iterator over the body
  tree one at a time: when a region is taken, the region after it is looked for at once,
  in the tree as it is before the paragraphs of the region just taken are processed. The
  state of the loop is the element that the iterator keeps, the counter and the
  document. The paragraphs of a region are all the paragraphs below it, in document
  order, when the region is reached. Nothing inside the \<open>try\<close> statement of the inner
  loop raises in the model, since \<open>translate_paragraph_element\<close> catches its own
  exceptions, so the line "Error in text box p" is never printed.
\<close>

fun process_text_box_paragraphs :: "translator \<Rightarrow> nid list \<Rightarrow> document \<Rightarrow> document" where
  "process_text_box_paragraphs translator [] d = d"
| "process_text_box_paragraphs translator (p_elem # ps) d =
     process_text_box_paragraphs translator ps
       (if strip (get_text d p_elem) \<noteq> [] then translate_paragraph_element translator p_elem d else d)"

partial_function (option) process_text_boxes ::
  "translator \<Rightarrow> nid \<Rightarrow> nid option \<Rightarrow> nat \<times> document \<Rightarrow> (nat \<times> document) option" where
  "process_text_boxes translator stop kept st =
     (case kept of
        None \<Rightarrow> Some st
      | Some txbx \<Rightarrow>
          process_text_boxes translator stop (iter_next ''w:txbxContent'' (snd st) stop txbx)
            (fst st + 1,
             process_text_box_paragraphs translator (iter_tagged ''w:p'' (snd st) txbx) (snd st)))"

text \<open>
  \<open>translate_and_format\<close>, from the loaded document to the document that is saved.
  Loading, saving and the pauses between calls are outside the model. The result is
  \<open>None\<close> when the loop over the text boxes does not end.
\<close>

definition translate_and_format :: "translator \<Rightarrow> document \<Rightarrow> document option" where
  "translate_and_format translator doc =
     (let d1 = merge_paragraphs doc;
          d2 = print Translating_body d1;
          d3 = process_paragraph_list translator (paragraphs d2 (body d2)) d2;
          d4 = print Translating_headers_footers d3;
          d5 = process_sections translator (sections d4) d4;
          d6 = print Translating_tables d5;
          d7 = process_tables translator (tables d6) d6;
          d8 = print Translating_text_boxes d7
      in case process_text_boxes translator (body d8)
                (iter_first ''w:txbxContent'' d8 (body d8)) (0, d8) of
           None \<Rightarrow> None
         | Some (count_txbx, d9) \<Rightarrow> Some (print (Processed count_txbx) d9))"

section \<open>Example documents\<close>

text \<open>
  A document whose body (element 0) holds the paragraphs 1, 2, ... with the given
  children, and nothing else.
\<close>

definition flat_doc :: "child list list \<Rightarrow> document" where
  "flat_doc cs =
     \<lparr>etag = (\<lambda>n. if n = 0 then ''w:body'' else ''w:p''),
      kids = (\<lambda>n. if n = 0 then [1..<Suc (length cs)] else []),
      parent = (\<lambda>n. if 1 \<le> n \<and> n \<le> length cs then Some 0 else None),
      content = (\<lambda>n. if 1 \<le> n \<and> n \<le> length cs then cs ! (n - 1) else []),
      next_id = Suc (length cs), body = 0, sections = [], row_cells = (\<lambda>r. []), depth = 1,
      console = [], calls = []\<rparr>"

text \<open>A paragraph with one run, and a paragraph with a property element and one run.\<close>

definition run_only :: "ustr \<Rightarrow> child list" where
  "run_only t = [Child ''w:r'' t]"

definition styled :: "ustr \<Rightarrow> child list" where
  "styled t = [Child ''w:pPr'' [], Child ''w:r'' t]"

section \<open>Abbreviations used in the statements\<close>

text \<open>
  The text that a merge assigns to the last retained paragraph, from the text of that
  paragraph and the text of the current one (line 50 of the program).
\<close>

definition joined :: "ustr \<Rightarrow> ustr \<Rightarrow> ustr" where
  "joined a b = rstrip a @ sep (strip a) (strip b) @ strip b"


text \<open>The condition under which a round merges, on the texts of the two paragraphs (line 44).\<close>

definition can_merge :: "ustr \<Rightarrow> ustr \<Rightarrow> bool" where
  "can_merge a b \<longleftrightarrow>
     strip a \<noteq> [] \<and> strip b \<noteq> [] \<and> \<not> is_terminated (strip a) \<and> \<not> starts_with_number (strip b) \<and>
     \<not> last_is_header (strip a)"

text \<open>What the loop does to the texts: the text of the last retained paragraph, then the rest.\<close>

fun merge_texts :: "ustr \<Rightarrow> ustr list \<Rightarrow> ustr list" where
  "merge_texts l [] = [l]"
| "merge_texts l (t # ts) =
     (if can_merge l t then merge_texts (joined l t) ts else l # merge_texts t ts)"

text \<open>No two neighbours can be merged.\<close>

fun settled :: "ustr list \<Rightarrow> bool" where
  "settled (a # b # ts) \<longleftrightarrow> \<not> can_merge a b \<and> settled (b # ts)"
| "settled ts \<longleftrightarrow> True"

text \<open>A text of forty or more characters, all of them decimal digits.\<close>

definition long_number :: "ustr \<Rightarrow> bool" where
  "long_number t \<longleftrightarrow> list_all is_decimal t \<and> 40 \<le> length t"

text \<open>
  The body as the document library gives it: its children are distinct elements, it is
  not itself a paragraph, every body paragraph has the body as its parent, and no body
  paragraph is a child of a body paragraph.
\<close>

definition body_well_formed :: "document \<Rightarrow> bool" where
  "body_well_formed d \<longleftrightarrow>
     distinct (kids d (body d)) \<and> etag d (body d) \<noteq> ''w:p'' \<and>
     list_all (\<lambda>p. parent d p = Some (body d) \<and>
                  list_all (\<lambda>q. q \<notin> set (kids d p)) (paragraphs d (body d)))
       (paragraphs d (body d))"

text \<open>
  What is read back from a run for a text that it could store: a carriage return has
  become a line feed.
\<close>

definition line_breaks :: "ustr \<Rightarrow> ustr" where
  "line_breaks s = map (\<lambda>c. if c = 13 then 10 else c) s"

text \<open>
  A document with nested text boxes. The body (0) holds the paragraphs 1 and 8, which
  have no text. A run (2) of paragraph 1 holds the text-box region 3 with the paragraph
  4; a run (5) of paragraph 4 holds the region 6 with the paragraph 7. A run (9) of
  paragraph 8 holds the region 10 with the paragraph 11. The paragraphs 4, 7 and 11 are
  header-style.
\<close>

definition nested_doc :: document where
  "nested_doc =
     \<lparr>etag = (\<lambda>n. if n = 0 then ''w:body'' else if n = 2 \<or> n = 5 \<or> n = 9 then ''w:r''
                 else if n = 3 \<or> n = 6 \<or> n = 10 then ''w:txbxContent'' else ''w:p''),
      kids = (\<lambda>n. if n = 0 then [1, 8] else if n = 1 then [2] else if n = 2 then [3]
                 else if n = 3 then [4] else if n = 4 then [5] else if n = 5 then [6]
                 else if n = 6 then [7] else if n = 8 then [9] else if n = 9 then [10]
                 else if n = 10 then [11] else []),
      parent = (\<lambda>n. if n = 1 \<or> n = 8 then Some 0 else if n = 2 then Some 1
                 else if n = 3 then Some 2 else if n = 4 then Some 3 else if n = 5 then Some 4
                 else if n = 6 then Some 5 else if n = 7 then Some 6 else if n = 9 then Some 8
                 else if n = 10 then Some 9 else if n = 11 then Some 10 else None),
      content = (\<lambda>n. if n = 1 \<or> n = 8 then [Child ''w:r'' []]
                 else if n = 4 then [Child ''w:r'' [0x7532, 0xFF1A], Child ''w:r'' []]
                 else if n = 7 then [Child ''w:r'' [0x4E59, 0xFF1A]]
                 else if n = 11 then [Child ''w:r'' [0x4E19, 0xFF1A]] else []),
      next_id = 12, body = 0, sections = [], row_cells = (\<lambda>r. []), depth = 7,
      console = [], calls = []\<rparr>"

text \<open>
  The same document when step 5 starts: no paragraph of the body has text, so only the
  console has changed.
\<close>

definition nested_doc_at_step_5 :: document where
  "nested_doc_at_step_5 =
     nested_doc\<lparr>console := [Merging, Merged 0, Translating_body, Translating_headers_footers,
       Translating_tables, Translating_text_boxes]\<rparr>"

text \<open>
  A document with a merged cell. The body (0) holds the table 1 with the row 2, whose
  only cell (3) spans two grid columns and holds the header-style paragraph 4.
\<close>

definition merged_cell_doc :: document where
  "merged_cell_doc =
     \<lparr>etag = (\<lambda>n. if n = 0 then ''w:body'' else if n = 1 then ''w:tbl''
                 else if n = 2 then ''w:tr'' else if n = 3 then ''w:tc'' else ''w:p''),
      kids = (\<lambda>n. if n = 0 then [1] else if n = 1 then [2] else if n = 2 then [3]
                 else if n = 3 then [4] else []),
      parent = (\<lambda>n. if n = 1 then Some 0 else if n = 2 then Some 1 else if n = 3 then Some 2
                 else if n = 4 then Some 3 else None),
      content = (\<lambda>n. if n = 4 then [Child ''w:r'' [0x4E59, 0xFF1A]] else []),
      next_id = 5, body = 0, sections = [], row_cells = (\<lambda>r. if r = 2 then [3, 3] else []),
      depth = 4, console = [], calls = []\<rparr>"

section \<open>Facts about the character classes and the regular expressions\<close>

lemma is_decimal_ascii: "c < 128 \<Longrightarrow> is_decimal c \<longleftrightarrow> 48 \<le> c \<and> c \<le> 57"
  unfolding is_decimal_def decimal_zeros_def list_ex_Cons_iff list_ex_Nil_iff
  by auto

lemma is_decimal_gap1: "58 \<le> c \<Longrightarrow> c < 0x660 \<Longrightarrow> \<not> is_decimal c"
  unfolding is_decimal_def decimal_zeros_def list_ex_Cons_iff list_ex_Nil_iff
  by simp

lemma is_decimal_gap2: "0x109A \<le> c \<Longrightarrow> c < 0x17E0 \<Longrightarrow> \<not> is_decimal c"
  unfolding is_decimal_def decimal_zeros_def list_ex_Cons_iff list_ex_Nil_iff
  by simp

lemma is_decimal_gap3: "0x1C5A \<le> c \<Longrightarrow> c < 0xA620 \<Longrightarrow> \<not> is_decimal c"
  unfolding is_decimal_def decimal_zeros_def list_ex_Cons_iff list_ex_Nil_iff
  by simp

lemma decimal_not_space: "is_decimal c \<Longrightarrow> \<not> is_space c"
  unfolding is_space_def
  using is_decimal_ascii [of c] is_decimal_gap1 [of c] is_decimal_gap2 [of c] is_decimal_gap3 [of c]
  by auto

lemma not_decimal_dot: "\<not> is_decimal 0x2E" and not_decimal_newline: "\<not> is_decimal 10"
  and not_space_dot: "\<not> is_space 0x2E"
  by (simp_all add: is_decimal_ascii is_space_def)

lemma star_rests_hd: "\<exists>rs. star_rests P s = dropWhile P s # rs"
  by (induction s) auto

lemma star_rests_set: "set (star_rests P s) = {drop k s |k. k \<le> length (takeWhile P s)}"
proof (induction s)
  case Nil
  then show ?case by simp
next
  case (Cons c cs)
  show ?case
  proof (cases "P c")
    case True
    have "{drop k (c # cs) |k. k \<le> Suc (length (takeWhile P cs))}
        = insert (c # cs) {drop k cs |k. k \<le> length (takeWhile P cs)}" (is "?L = ?R")
    proof
      show "?L \<subseteq> ?R"
      proof
        fix x assume "x \<in> ?L"
        then obtain k where k: "x = drop k (c # cs)" "k \<le> Suc (length (takeWhile P cs))" by blast
        show "x \<in> ?R"
        proof (cases k)
          case 0
          with k show ?thesis by simp
        next
          case (Suc j)
          with k show ?thesis by auto
        qed
      qed
      show "?R \<subseteq> ?L"
      proof
        fix x assume "x \<in> ?R"
        then consider "x = c # cs" | k where "x = drop k cs" "k \<le> length (takeWhile P cs)" by blast
        then show "x \<in> ?L"
        proof cases
          case 1
          then have "x = drop 0 (c # cs)" by simp
          then show ?thesis by blast
        next
          case 2
          then have "x = drop (Suc k) (c # cs)" "Suc k \<le> Suc (length (takeWhile P cs))" by simp_all
          then show ?thesis by blast
        qed
      qed
    qed
    with True Cons show ?thesis by simp
  next
    case False
    then show ?thesis by simp
  qed
qed

lemma drop_in_takeWhile:
  assumes "k < length (takeWhile P s)"
  shows "drop k s \<noteq> [] \<and> P (hd (drop k s))"
proof -
  have len: "k < length s" using assms length_takeWhile_le [of P s] by (rule less_le_trans)
  have "takeWhile P s ! k \<in> set (takeWhile P s)" using assms by simp
  then have "P (takeWhile P s ! k)" by (rule set_takeWhileD [THEN conjunct2])
  then have "P (s ! k)" using assms by (simp add: takeWhile_nth)
  with len show ?thesis by (simp add: hd_drop_conv_nth)
qed

lemma rests_dot_or_eol:
  "rests (Alt (Cls (\<lambda>c. c = 0x2E)) Eol) r \<noteq> [] \<longleftrightarrow> marker_end r"
  by (cases r) (auto simp: marker_end_def)

lemma rests_seq_nonempty:
  "rests (Seq a b) s \<noteq> [] \<longleftrightarrow> (\<exists>r\<in>set (rests a s). rests b r \<noteq> [])"
  by simp

lemma rests_plus_set:
  "set (rests (Plus P) s) = {drop k s |k. 1 \<le> k \<and> k \<le> length (takeWhile P s)}"
proof (cases s)
  case Nil
  then show ?thesis by simp
next
  case (Cons c cs)
  show ?thesis
  proof (cases "P c")
    case True
    have "{drop k cs |k. k \<le> length (takeWhile P cs)}
        = {drop k (c # cs) |k. 1 \<le> k \<and> k \<le> Suc (length (takeWhile P cs))}" (is "?L = ?R")
    proof
      show "?L \<subseteq> ?R"
      proof
        fix x assume "x \<in> ?L"
        then obtain k where "x = drop k cs" "k \<le> length (takeWhile P cs)" by blast
        then have "x = drop (Suc k) (c # cs)" "1 \<le> Suc k \<and> Suc k \<le> Suc (length (takeWhile P cs))"
          by simp_all
        then show "x \<in> ?R" by blast
      qed
      show "?R \<subseteq> ?L"
      proof
        fix x assume "x \<in> ?R"
        then obtain k where k: "x = drop k (c # cs)" "1 \<le> k" "k \<le> Suc (length (takeWhile P cs))"
          by blast
        then obtain j where "k = Suc j" by (cases k) auto
        with k show "x \<in> ?L" by auto
      qed
    qed
    with True Cons show ?thesis by (simp add: star_rests_set)
  next
    case False
    with Cons show ?thesis by simp
  qed
qed

lemma digits_then_end:
  "rests (Seq (Plus is_decimal) (Alt (Cls (\<lambda>c. c = 0x2E)) Eol)) u \<noteq> []
     \<longleftrightarrow> takeWhile is_decimal u \<noteq> [] \<and> marker_end (dropWhile is_decimal u)"
proof -
  let ?n = "length (takeWhile is_decimal u)"
  have "rests (Seq (Plus is_decimal) (Alt (Cls (\<lambda>c. c = 0x2E)) Eol)) u \<noteq> []
      \<longleftrightarrow> (\<exists>r \<in> set (rests (Plus is_decimal) u). marker_end r)"
    by (simp only: rests_seq_nonempty rests_dot_or_eol)
  also have "\<dots> \<longleftrightarrow> (\<exists>k. 1 \<le> k \<and> k \<le> ?n \<and> marker_end (drop k u))"
    unfolding rests_plus_set by blast
  also have "\<dots> \<longleftrightarrow> 1 \<le> ?n \<and> marker_end (drop ?n u)"
  proof
    assume "\<exists>k. 1 \<le> k \<and> k \<le> ?n \<and> marker_end (drop k u)"
    then obtain k where k: "1 \<le> k" "k \<le> ?n" "marker_end (drop k u)" by blast
    have "k = ?n"
    proof (rule ccontr)
      assume "k \<noteq> ?n"
      with k have "k < ?n" by simp
      then have "drop k u \<noteq> []" "is_decimal (hd (drop k u))"
        using drop_in_takeWhile [of k is_decimal u] by simp_all
      with k(3) show False
        by (cases "drop k u") (auto simp: marker_end_def not_decimal_dot not_decimal_newline)
    qed
    with k show "1 \<le> ?n \<and> marker_end (drop ?n u)" by simp
  next
    assume "1 \<le> ?n \<and> marker_end (drop ?n u)"
    then show "\<exists>k. 1 \<le> k \<and> k \<le> ?n \<and> marker_end (drop k u)" by blast
  qed
  also have "\<dots> \<longleftrightarrow> takeWhile is_decimal u \<noteq> [] \<and> marker_end (dropWhile is_decimal u)"
    by (cases "takeWhile is_decimal u") (simp_all add: dropWhile_eq_drop)
  finally show ?thesis .
qed

lemma re_match_numeric_marker:
  "re_match numeric_marker t \<longleftrightarrow>
     takeWhile is_decimal (dropWhile is_space t) \<noteq> [] \<and>
     marker_end (dropWhile is_decimal (dropWhile is_space t))"
proof -
  let ?tl = "Seq (Plus is_decimal) (Alt (Cls (\<lambda>c. c = 0x2E)) Eol)"
  let ?n = "length (takeWhile is_space t)"
  have "re_match numeric_marker t \<longleftrightarrow> (\<exists>k\<le>?n. rests ?tl (drop k t) \<noteq> [])"
    unfolding re_match_def numeric_marker_def rests_seq_nonempty [of "Star is_space"] rests.simps(2)
      star_rests_set by blast
  also have "\<dots> \<longleftrightarrow> rests ?tl (drop ?n t) \<noteq> []"
  proof
    assume "\<exists>k\<le>?n. rests ?tl (drop k t) \<noteq> []"
    then obtain k where k: "k \<le> ?n" "rests ?tl (drop k t) \<noteq> []" by blast
    have "k = ?n"
    proof (rule ccontr)
      assume "k \<noteq> ?n"
      with k have "k < ?n" by simp
      then have "drop k t \<noteq> []" "is_space (hd (drop k t))"
        using drop_in_takeWhile [of k is_space t] by simp_all
      then have "takeWhile is_decimal (drop k t) = []"
        using decimal_not_space by (cases "drop k t") auto
      with k(2) show False unfolding digits_then_end by simp
    qed
    with k show "rests ?tl (drop ?n t) \<noteq> []" by simp
  next
    assume "rests ?tl (drop ?n t) \<noteq> []"
    then show "\<exists>k\<le>?n. rests ?tl (drop k t) \<noteq> []" by blast
  qed
  finally show ?thesis unfolding digits_then_end by (simp add: dropWhile_eq_drop)
qed

lemma clean_translation_eq:
  "clean_translation s =
     (case s of [] \<Rightarrow> []
      | c # cs \<Rightarrow> if is_decimal c \<or> c = 0x2E
                  then dropWhile is_space (dropWhile (\<lambda>c. is_decimal c \<or> c = 0x2E) cs) else s)"
proof (cases s)
  case Nil
  then show ?thesis by (simp add: clean_translation_def re_sub_empty_def numbering_prefix_def)
next
  case (Cons c cs)
  obtain rs where rs: "star_rests (\<lambda>c. is_decimal c \<or> c = 0x2E) cs
      = dropWhile (\<lambda>c. is_decimal c \<or> c = 0x2E) cs # rs"
    using star_rests_hd by blast
  obtain rs' where rs': "star_rests is_space (dropWhile (\<lambda>c. is_decimal c \<or> c = 0x2E) cs)
      = dropWhile is_space (dropWhile (\<lambda>c. is_decimal c \<or> c = 0x2E) cs) # rs'"
    using star_rests_hd by blast
  show ?thesis using Cons rs rs'
    by (simp add: clean_translation_def re_sub_empty_def numbering_prefix_def)
qed

text \<open>
  Claim C10. The cleanup of a translation removes a leading run of digits and dots of any
  shape, with the whitespace after it: when the text is a non-empty run \<open>p\<close> of digits
  and dots, then whitespace \<open>w\<close>, then a rest \<open>r\<close> that continues neither, the result is
  \<open>r\<close>. So a translation that begins with dots alone or with a multi-level number
  loses that whole prefix.
\<close>

theorem clean_translation_strips_digits_and_dots:
  assumes "p \<noteq> []" and "\<forall>c\<in>set p. is_decimal c \<or> c = 0x2E" and "\<forall>c\<in>set w. is_space c"
    and "r = [] \<or> \<not> is_space (hd r)"
    and "w = [] \<longrightarrow> r = [] \<or> \<not> (is_decimal (hd r) \<or> hd r = 0x2E)"
  shows "clean_translation (p @ w @ r) = r"
proof -
  let ?dd = "\<lambda>c. is_decimal c \<or> c = 0x2E"
  obtain c p' where p: "p = c # p'" using assms(1) by (cases p) auto
  have c: "?dd c" and p': "\<forall>x\<in>set p'. ?dd x" using assms(2) p by simp_all
  have stop: "dropWhile ?dd (w @ r) = w @ r"
  proof (cases w)
    case Nil
    with assms(5) show ?thesis by (cases r) auto
  next
    case (Cons x xs)
    with assms(3) have "is_space x" by simp
    then have "\<not> ?dd x" using decimal_not_space not_space_dot by auto
    with Cons show ?thesis by simp
  qed
  have "dropWhile ?dd (p' @ w @ r) = w @ r"
    using p' stop by simp
  moreover have "dropWhile is_space (w @ r) = r"
    using assms(3,4) by (cases r) simp_all
  ultimately show ?thesis using p c by (simp add: clean_translation_eq)
qed

theorem clean_translation_witness:
  "clean_translation [0x2E, 0x2E, 0x2E, 0x74, 0x65, 0x78, 0x74] = [0x74, 0x65, 0x78, 0x74] \<and>
   clean_translation [0x31, 0x2E, 0x32, 0x2E, 0x33, 0x2E, 0x20, 0x74, 0x65, 0x78, 0x74] = [0x74, 0x65, 0x78, 0x74]"
  using clean_translation_strips_digits_and_dots [of "[0x2E, 0x2E, 0x2E]" "[]" "[0x74, 0x65, 0x78, 0x74]"]
    clean_translation_strips_digits_and_dots [of "[0x31, 0x2E, 0x32, 0x2E, 0x33, 0x2E]" "[0x20]" "[0x74, 0x65, 0x78, 0x74]"]
  by (simp add: is_decimal_ascii is_space_def)

section \<open>The merger: one round of the loop\<close>

lemma endswith_single: "endswith s [c] \<longleftrightarrow> s \<noteq> [] \<and> last s = c"
proof (cases s rule: rev_cases)
  case Nil
  then show ?thesis by (simp add: endswith_def)
next
  case (snoc ys y)
  then show ?thesis by (auto simp: endswith_def)
qed

lemma is_terminated_iff:
  "is_terminated t \<longleftrightarrow>
     t \<noteq> [] \<and> last t \<in> {0x3002, 0xFF1F, 0xFF01, 0xFF1A, 0x3A, 0x3B, 0xFF1B, 0x29, 0xFF09, 0x201D, 0x22}"
  unfolding is_terminated_def endswith_any_def terminators_def list_ex_Cons_iff list_ex_Nil_iff
    endswith_single
  by auto

lemma merge_step_blocked:
  assumes "is_terminated (strip (get_text d last_p)) \<or> starts_with_number (strip (get_text d curr_p))
     \<or> last_is_header (strip (get_text d last_p))"
  shows "merge_step curr_p (last_p, n, d) = (curr_p, n, d)"
  using assms by (auto simp: merge_step_def Let_def)

lemma get_text_flat: "1 \<le> n \<Longrightarrow> n \<le> length cs \<Longrightarrow> get_text (flat_doc cs) n
   = concat (map payload (filter (\<lambda>c. tag c = ''w:r'') (cs ! (n - 1))))"
  by (simp add: get_text_def flat_doc_def)

lemma strip_keep: "s \<noteq> [] \<Longrightarrow> \<not> is_space (hd s) \<Longrightarrow> \<not> is_space (last s) \<Longrightarrow> strip s = s"
proof -
  assume a: "s \<noteq> []" "\<not> is_space (hd s)" "\<not> is_space (last s)"
  then have "dropWhile is_space (rev s) = rev s" by (cases s rule: rev_cases) auto
  then have "rstrip s = s" by (simp add: rstrip_def)
  moreover have "lstrip s = s" using a by (cases s) (auto simp: lstrip_def)
  ultimately show ?thesis by (simp add: strip_def)
qed

text \<open>
  Claim C2, as amended. \<open>is_terminated\<close> holds exactly when the text ends with one of the
  eleven terminators of the program: the ideographic full stop, the full-width question
  mark and exclamation mark, the full-width and the ASCII colon, semicolon and closing
  parenthesis, the right double quotation mark and the ASCII quotation mark. The ASCII
  full stop, question mark and exclamation mark are not among them. Whenever the
  predicate holds of the trimmed text of the last retained paragraph, the round of the
  loop does not merge: it moves on to the current paragraph and leaves the document as
  it is.
\<close>

theorem is_terminated_blocks_merge:
  "(is_terminated t \<longleftrightarrow>
      t \<noteq> [] \<and> last t \<in> {0x3002, 0xFF1F, 0xFF01, 0xFF1A, 0x3A, 0x3B, 0xFF1B, 0x29, 0xFF09, 0x201D, 0x22}) \<and>
   (is_terminated (strip (get_text d last_p)) \<longrightarrow> merge_step curr_p (last_p, n, d) = (curr_p, n, d))"
  using is_terminated_iff [of t] merge_step_blocked [of d last_p curr_p n] by blast

theorem is_terminated_blocks_merge_witness:
  "is_terminated [0x7ED3, 0x675F, 0x3002] \<and>
   merge_step 2 (1, 0, flat_doc [run_only [0x7ED3, 0x675F, 0x3002], run_only [0x7EE7, 0x7EED]])
     = (2, 0, flat_doc [run_only [0x7ED3, 0x675F, 0x3002], run_only [0x7EE7, 0x7EED]])"
  using is_terminated_blocks_merge [of "[0x7ED3, 0x675F, 0x3002]"
      "flat_doc [run_only [0x7ED3, 0x675F, 0x3002], run_only [0x7EE7, 0x7EED]]" 1 2 0]
  by (simp add: get_text_flat run_only_def strip_keep is_space_def)

text \<open>
  A text that ends with an ASCII full stop, question mark or exclamation mark is not
  terminated.
\<close>

theorem ascii_full_stop_not_terminator:
  "\<not> is_terminated [0x61, 0x62, 0x2E] \<and> \<not> is_terminated [0x61, 0x62, 0x3F] \<and> \<not> is_terminated [0x61, 0x62, 0x21]"
  by (simp add: is_terminated_iff)

subsection \<open>Reading and writing the store\<close>

lemma runs_of_properties: "filter (\<lambda>c. tag c = ''w:r'') (filter (\<lambda>c. tag c = ''w:pPr'') cs) = []"
  by (induction cs) auto

lemma get_text_set_text: "get_text (set_text p t d) q = (if q = p then t else get_text d q)"
  by (simp add: get_text_def set_text_def runs_of_properties)

lemma kids_set_text: "kids (set_text p t d) c = (if c = p then [] else kids d c)"
  by (simp add: set_text_def)

lemma parent_set_text: "parent (set_text p t d) n = (if n \<in> set (kids d p) then None else parent d n)"
  by (simp add: set_text_def)

lemma set_text_fields:
  "etag (set_text p t d) = etag d" "next_id (set_text p t d) = next_id d"
  "body (set_text p t d) = body d" "sections (set_text p t d) = sections d"
  "depth (set_text p t d) = depth d" "console (set_text p t d) = console d"
  "calls (set_text p t d) = calls d"
  by (simp_all add: set_text_def)

lemma content_set_text_other: "q \<noteq> p \<Longrightarrow> content (set_text p t d) q = content d q"
  by (simp add: set_text_def)

lemma get_text_print: "get_text (print l d) q = get_text d q"
  by (simp add: get_text_def print_def)

lemma print_fields:
  "etag (print l d) = etag d" "kids (print l d) = kids d" "parent (print l d) = parent d"
  "content (print l d) = content d" "next_id (print l d) = next_id d" "body (print l d) = body d"
  "sections (print l d) = sections d" "depth (print l d) = depth d"
  "console (print l d) = console d @ [l]" "calls (print l d) = calls d"
  by (simp_all add: print_def)

lemma remove_from_parent_ok:
  assumes "parent d e = Some c" and "e \<in> set (kids d c)"
  shows "remove_from_parent e d
     = Inr (d\<lparr>kids := (kids d)(c := remove1 e (kids d c)), parent := (parent d)(e := None)\<rparr>)"
  using assms by (simp add: remove_from_parent_def)


lemma strip_strip_left: "lstrip (strip s) = strip s"
  by (simp add: strip_def lstrip_def)

subsection \<open>The cases of a round\<close>

lemma merge_step_empty:
  "strip (get_text d curr_p) = [] \<Longrightarrow> merge_step curr_p (last_p, n, d) = (curr_p, n, d)"
  by (simp add: merge_step_def)

lemma merge_step_last_empty:
  "strip (get_text d last_p) = [] \<Longrightarrow> merge_step curr_p (last_p, n, d) = (curr_p, n, d)"
  by (simp add: merge_step_def Let_def)

lemma merge_step_merge:
  assumes "strip (get_text d last_p) \<noteq> []" and "strip (get_text d curr_p) \<noteq> []"
    and "\<not> is_terminated (strip (get_text d last_p))"
    and "\<not> starts_with_number (strip (get_text d curr_p))"
    and "\<not> last_is_header (strip (get_text d last_p))"
  shows "merge_step curr_p (last_p, n, d) =
     (case remove_from_parent curr_p (set_text last_p (joined (get_text d last_p) (get_text d curr_p)) d) of
        Inr d2 \<Rightarrow> (last_p, n + 1, d2)
      | Inl e \<Rightarrow> (last_p, n, print (Error_removing e)
            (set_text last_p (joined (get_text d last_p) (get_text d curr_p)) d)))"
  unfolding joined_def using assms by (simp add: merge_step_def Let_def strip_strip_left)

lemma merge_step_attached:
  assumes "strip (get_text d A) \<noteq> []" and "strip (get_text d B) \<noteq> []"
    and "\<not> is_terminated (strip (get_text d A))"
    and "\<not> starts_with_number (strip (get_text d B))"
    and "\<not> last_is_header (strip (get_text d A))"
    and "parent d B = Some c" and "B \<in> set (kids d c)" and "B \<notin> set (kids d A)"
  shows "\<exists>d'. merge_step B (A, n, d) = (A, n + 1, d') \<and>
     get_text d' A = rstrip (get_text d A)
        @ (if isascii (last (strip (get_text d A))) \<and> isascii (hd (strip (get_text d B))) then [0x20] else [])
        @ strip (get_text d B) \<and>
     kids d' c = remove1 B (kids d c) \<and> parent d' B = None"
proof -
  let ?d1 = "set_text A (joined (get_text d A) (get_text d B)) d"
  have cA: "c \<noteq> A" using assms(7,8) by auto
  have p1: "parent ?d1 B = Some c" using assms(6,8) by (simp add: parent_set_text)
  have k1: "kids ?d1 c = kids d c" using cA by (simp add: kids_set_text)
  let ?d2 = "?d1\<lparr>kids := (kids ?d1)(c := remove1 B (kids ?d1 c)), parent := (parent ?d1)(B := None)\<rparr>"
  have rm: "remove_from_parent B ?d1 = Inr ?d2"
    using p1 k1 assms(7) by (simp add: remove_from_parent_ok)
  have step: "merge_step B (A, n, d) = (A, n + 1, ?d2)"
    using assms(1-5) rm by (simp add: merge_step_merge)
  have "get_text ?d2 A = get_text ?d1 A" by (simp add: get_text_def)
  then have jt: "get_text ?d2 A = joined (get_text d A) (get_text d B)"
    by (simp add: get_text_set_text)
  have "kids ?d2 c = remove1 B (kids d c)" using k1 by simp
  moreover have "parent ?d2 B = None" by simp
  ultimately show ?thesis using step jt unfolding joined_def sep_def by blast
qed


lemma kids_flat_doc: "kids (flat_doc cs) c = (if c = 0 then [1..<Suc (length cs)] else [])"
  by (simp add: flat_doc_def)

lemma parent_flat_doc: "parent (flat_doc cs) n = (if 1 \<le> n \<and> n \<le> length cs then Some 0 else None)"
  by (simp add: flat_doc_def)

lemmas eval_text = get_text_flat run_only_def styled_def strip_def rstrip_def lstrip_def is_space_def
  starts_with_number_def last_is_header_def re_match_numeric_marker marker_end_def
  is_decimal_ascii is_decimal_gap3 is_terminated_iff isascii_def



section \<open>The inserter: one paragraph\<close>

lemma translate_empty:
  "strip (get_text d p) = [] \<Longrightarrow> translate_paragraph_element tr p d = d"
  by (simp add: translate_paragraph_element_def)

lemma process_skips_empty:
  "strip (get_text d p) = [] \<Longrightarrow> process_paragraph_list tr (p # ps) d = process_paragraph_list tr ps d"
  by simp

lemma translate_failure:
  assumes "strip (get_text d p) \<noteq> []"
    and "tr (map snd (calls d)) (rstrip_chars [0xFF1A, 0x3A] (strip (get_text d p))) = Inl e"
  shows "translate_paragraph_element tr p d =
     print (Error_translating (take 20 (strip (get_text d p))) e)
       (d\<lparr>calls := calls d @ [(p, rstrip_chars [0xFF1A, 0x3A] (strip (get_text d p)))]\<rparr>)"
  using assms by (simp add: translate_paragraph_element_def translate_try_def Let_def)

lemma xml_compatible_append: "xml_compatible (a @ b) \<longleftrightarrow> xml_compatible a \<and> xml_compatible b"
  by (simp add: xml_compatible_def)

lemma add_text_stored:
  "xml_compatible bfr \<Longrightarrow> xml_compatible s \<Longrightarrow> add_text held bfr s = (None, held @ bfr @ line_breaks s)"
proof (induction s arbitrary: held bfr)
  case Nil
  then show ?case by (simp add: line_breaks_def)
next
  case (Cons c cs)
  from Cons.prems(2) have cs: "xml_compatible cs" and c: "xml_char c"
    by (simp_all add: xml_compatible_def)
  show ?case
  proof (cases "c = 9 \<or> c = 10 \<or> c = 13")
    case True
    have "xml_compatible []" by (simp add: xml_compatible_def)
    from Cons.IH [OF this cs] True Cons.prems(1) show ?thesis
      by (auto simp: line_breaks_def)
  next
    case False
    have "xml_compatible (bfr @ [c])"
      using Cons.prems(1) c by (simp add: xml_compatible_def)
    from Cons.IH [OF this cs] False show ?thesis
      by (simp add: line_breaks_def)
  qed
qed

lemma add_text_raises:
  "\<not> xml_compatible (bfr @ s) \<Longrightarrow> fst (add_text held bfr s) = Some ValueError"
proof (induction s arbitrary: held bfr)
  case Nil
  then show ?case by simp
next
  case (Cons c cs)
  show ?case
  proof (cases "c = 9 \<or> c = 10 \<or> c = 13")
    case True
    then have c: "xml_char c" by (auto simp: xml_char_def)
    show ?thesis
    proof (cases "xml_compatible bfr")
      case compatible: True
      with Cons.prems c have "\<not> xml_compatible ([] @ cs)" by (simp add: xml_compatible_def)
      from Cons.IH [OF this] True compatible show ?thesis by simp
    next
      case False
      with True show ?thesis by simp
    qed
  next
    case False
    from Cons.prems have "\<not> xml_compatible ((bfr @ [c]) @ cs)" by simp
    from Cons.IH [OF this] False show ?thesis by simp
  qed
qed

lemma assign_text_stored:
  "xml_compatible t \<Longrightarrow> assign_text p t d = (None, set_text p (line_breaks t) d)"
proof -
  assume "xml_compatible t"
  moreover have "xml_compatible []" by (simp add: xml_compatible_def)
  ultimately have "add_text [] [] t = (None, [] @ [] @ line_breaks t)" by (rule add_text_stored [rotated])
  then show ?thesis by (simp add: assign_text_def)
qed

lemma assign_text_raises:
  assumes "\<not> xml_compatible t"
  shows "\<exists>held. assign_text p t d = (Some ValueError, set_text p held d)"
proof -
  from assms have "fst (add_text [] [] t) = Some ValueError" by (simp add: add_text_raises)
  then obtain held where "add_text [] [] t = (Some ValueError, held)" by (cases "add_text [] [] t") simp
  then have "assign_text p t d = (Some ValueError, set_text p held d)" by (simp add: assign_text_def)
  then show ?thesis by blast
qed

lemma translate_header:
  assumes "endswith (strip (get_text d p)) [0xFF1A] \<or> endswith (strip (get_text d p)) [0x3A]"
    and "tr (map snd (calls d)) (rstrip_chars [0xFF1A, 0x3A] (strip (get_text d p))) = Inr r"
    and "xml_compatible (rstrip_chars [0xFF1A, 0x3A] (strip (get_text d p)) @ [0x28] @ strip r @ [0x29, 0x3A])"
  shows "translate_paragraph_element tr p d =
     set_text p (line_breaks (rstrip_chars [0xFF1A, 0x3A] (strip (get_text d p)) @ [0x28] @ strip r @ [0x29, 0x3A]))
       (d\<lparr>calls := calls d @ [(p, rstrip_chars [0xFF1A, 0x3A] (strip (get_text d p)))]\<rparr>)"
proof -
  have "strip (get_text d p) \<noteq> []" using assms(1) by (auto simp: endswith_def)
  then show ?thesis
    using assms(1,2) assign_text_stored [OF assms(3)]
    by (simp add: translate_paragraph_element_def translate_try_def Let_def)
qed

lemma translate_header_raises:
  assumes "endswith (strip (get_text d p)) [0xFF1A] \<or> endswith (strip (get_text d p)) [0x3A]"
    and "tr (map snd (calls d)) (rstrip_chars [0xFF1A, 0x3A] (strip (get_text d p))) = Inr r"
    and "\<not> xml_compatible (rstrip_chars [0xFF1A, 0x3A] (strip (get_text d p)) @ [0x28] @ strip r @ [0x29, 0x3A])"
  shows "\<exists>held. translate_paragraph_element tr p d =
     print (Error_translating (take 20 (strip (get_text d p))) ValueError)
       (set_text p held (d\<lparr>calls := calls d @ [(p, rstrip_chars [0xFF1A, 0x3A] (strip (get_text d p)))]\<rparr>))"
proof -
  have ne: "strip (get_text d p) \<noteq> []" using assms(1) by (auto simp: endswith_def)
  from assign_text_raises [OF assms(3)]
  obtain held where "assign_text p
       (rstrip_chars [0xFF1A, 0x3A] (strip (get_text d p)) @ [0x28] @ strip r @ [0x29, 0x3A])
       (d\<lparr>calls := calls d @ [(p, rstrip_chars [0xFF1A, 0x3A] (strip (get_text d p)))]\<rparr>)
     = (Some ValueError,
        set_text p held (d\<lparr>calls := calls d @ [(p, rstrip_chars [0xFF1A, 0x3A] (strip (get_text d p)))]\<rparr>))"
    by blast
  then have "translate_paragraph_element tr p d =
     print (Error_translating (take 20 (strip (get_text d p))) ValueError)
       (set_text p held (d\<lparr>calls := calls d @ [(p, rstrip_chars [0xFF1A, 0x3A] (strip (get_text d p)))]\<rparr>))"
    using ne assms(1,2)
    by (simp add: translate_paragraph_element_def translate_try_def Let_def)
  then show ?thesis by blast
qed

lemma rstrip_chars_keep:
  assumes "\<not> endswith s [a]" and "\<not> endswith s [b]"
  shows "rstrip_chars [a, b] s = s"
proof (cases s rule: rev_cases)
  case Nil
  then show ?thesis by (simp add: rstrip_chars_def)
next
  case (snoc ys y)
  with assms have "y \<noteq> a" "y \<noteq> b" by (simp_all add: endswith_single)
  with snoc show ?thesis by (simp add: rstrip_chars_def)
qed



lemma translate_insert_raises:
  assumes "strip (get_text d p) \<noteq> []"
    and "\<not> endswith (strip (get_text d p)) [0xFF1A]" and "\<not> endswith (strip (get_text d p)) [0x3A]"
    and "tr (map snd (calls d)) (strip (get_text d p)) = Inr r"
    and "\<not> xml_compatible (clean_translation (strip r))"
  shows "let d' = translate_paragraph_element tr p d in
     console d' = console d @ [Error_translating (take 20 (strip (get_text d p))) ValueError] \<and>
     kids d' = (kids d)(next_id d := []) \<and> parent d' = (parent d)(next_id d := None)"
proof -
  have req: "rstrip_chars [0xFF1A, 0x3A] (strip (get_text d p)) = strip (get_text d p)"
    using assms(2,3) by (rule rstrip_chars_keep)
  show ?thesis
    using assms
    by (simp add: translate_paragraph_element_def translate_try_def Let_def req deepcopy_def print_def)
qed

lemma runs_of_kept: "filter (\<lambda>x. \<not> ends_with_r (tag x) \<and> tag x = ''w:r'') cs = []"
  by (induction cs) (auto simp: ends_with_r_def endswith_def)

text \<open>
  Claim C5, as amended. A paragraph whose trimmed text is empty is skipped by the merger
  and by the inserter: the round of the merger for it leaves the document and the
  counter as they are and makes it the last retained paragraph; the next round does not
  merge into it; the inserter returns at once for it, and the loop over a paragraph list
  passes it by, so no translation call is made for it.
\<close>

theorem empty_paragraph_is_skipped:
  assumes "strip (get_text d p) = []"
  shows "merge_step p (last_p, n, d) = (p, n, d) \<and>
     merge_step q (p, n, d) = (q, n, d) \<and>
     translate_paragraph_element tr p d = d \<and>
     process_paragraph_list tr (p # ps) d = process_paragraph_list tr ps d"
  using assms
  by (simp add: merge_step_empty merge_step_last_empty translate_empty)

theorem empty_paragraph_is_skipped_witness:
  "merge_step 2 (1, 0, flat_doc [run_only [0x61, 0x62, 0x63], run_only [0x20, 0x3000], run_only [0x64]])
     = (2, 0, flat_doc [run_only [0x61, 0x62, 0x63], run_only [0x20, 0x3000], run_only [0x64]]) \<and>
   merge_step 3 (2, 0, flat_doc [run_only [0x61, 0x62, 0x63], run_only [0x20, 0x3000], run_only [0x64]])
     = (3, 0, flat_doc [run_only [0x61, 0x62, 0x63], run_only [0x20, 0x3000], run_only [0x64]]) \<and>
   translate_paragraph_element (\<lambda>h t. Inr t) 2
       (flat_doc [run_only [0x61, 0x62, 0x63], run_only [0x20, 0x3000], run_only [0x64]])
     = flat_doc [run_only [0x61, 0x62, 0x63], run_only [0x20, 0x3000], run_only [0x64]] \<and>
   process_paragraph_list (\<lambda>h t. Inr t) [2]
       (flat_doc [run_only [0x61, 0x62, 0x63], run_only [0x20, 0x3000], run_only [0x64]])
     = flat_doc [run_only [0x61, 0x62, 0x63], run_only [0x20, 0x3000], run_only [0x64]]"
  using empty_paragraph_is_skipped
    [of "flat_doc [run_only [0x61, 0x62, 0x63], run_only [0x20, 0x3000], run_only [0x64]]" 2 1 0 3
      "\<lambda>h t. Inr t" "[]"]
  by (simp add: eval_text)

text \<open>
  In the body "abc", " ", "d" the round for the blank paragraph moves the last retained
  paragraph from the first paragraph to the blank one, and the whole loop merges
  nothing, although "abc" and "d" next to each other are merged.
\<close>

theorem blank_paragraph_becomes_last_retained:
  "strip (get_text (flat_doc [run_only [0x61, 0x62, 0x63], run_only [0x20], run_only [0x64]]) 2) = [] \<and>
   fst (merge_step 2 (1, 0, flat_doc [run_only [0x61, 0x62, 0x63], run_only [0x20], run_only [0x64]])) = 2 \<and>
   merge_loop [2, 3] (1, 0, flat_doc [run_only [0x61, 0x62, 0x63], run_only [0x20], run_only [0x64]])
     = (3, 0, flat_doc [run_only [0x61, 0x62, 0x63], run_only [0x20], run_only [0x64]]) \<and>
   fst (snd (merge_loop [2] (1, 0, flat_doc [run_only [0x61, 0x62, 0x63], run_only [0x64]]))) = 1"
proof -
  let ?d = "flat_doc [run_only [0x61, 0x62, 0x63], run_only [0x20], run_only [0x64]]"
  let ?e = "flat_doc [run_only [0x61, 0x62, 0x63], run_only [0x64]]"
  have blank: "strip (get_text ?d 2) = []" by (simp add: eval_text)
  then have one: "merge_step 2 (1, 0, ?d) = (2, 0, ?d)" by (rule merge_step_empty)
  have two: "merge_step 3 (2, 0, ?d) = (3, 0, ?d)" using blank by (rule merge_step_last_empty)
  have pre: "strip (get_text ?e 1) \<noteq> []" "strip (get_text ?e 2) \<noteq> []"
    "\<not> is_terminated (strip (get_text ?e 1))" "\<not> starts_with_number (strip (get_text ?e 2))"
    "\<not> last_is_header (strip (get_text ?e 1))"
    by (simp_all add: eval_text)
  have "parent ?e 2 = Some 0" "2 \<in> set (kids ?e 0)" "2 \<notin> set (kids ?e 1)"
    by (simp_all add: kids_flat_doc parent_flat_doc)
  from merge_step_attached [OF pre this, of 0]
  obtain d' where "merge_step 2 (1, 0, ?e) = (1, 0 + 1, d')" by blast
  then have "fst (snd (merge_loop [2] (1, 0, ?e))) = 1" by simp
  with blank one two show ?thesis by simp
qed



text \<open>
  Claim C6. When the translation call for a paragraph fails, the inserter catches the
  failure and prints it with the first twenty characters of the trimmed text; the
  elements, their children, their parents and all texts are as before the attempt; and
  the loop over the paragraph list goes on with the next paragraph.
\<close>

theorem translation_failure_leaves_paragraph:
  assumes "strip (get_text d p) \<noteq> []"
    and "tr (map snd (calls d)) (rstrip_chars [0xFF1A, 0x3A] (strip (get_text d p))) = Inl e"
  shows "let d' = translate_paragraph_element tr p d in
     console d' = console d @ [Error_translating (take 20 (strip (get_text d p))) e] \<and>
     content d' = content d \<and> kids d' = kids d \<and> parent d' = parent d \<and> etag d' = etag d \<and>
     next_id d' = next_id d \<and> get_text d' = get_text d \<and>
     process_paragraph_list tr (p # ps) d = process_paragraph_list tr ps d'"
proof -
  let ?d' = "print (Error_translating (take 20 (strip (get_text d p))) e)
       (d\<lparr>calls := calls d @ [(p, rstrip_chars [0xFF1A, 0x3A] (strip (get_text d p)))]\<rparr>)"
  have eq: "translate_paragraph_element tr p d = ?d'"
    using assms by (rule translate_failure)
  have "get_text ?d' = get_text d" by (rule ext) (simp add: get_text_def print_def)
  moreover have "process_paragraph_list tr (p # ps) d = process_paragraph_list tr ps ?d'"
    using assms(1) eq by simp
  ultimately show ?thesis unfolding eq Let_def by (simp add: print_fields)
qed

theorem translation_failure_witness:
  "console (translate_paragraph_element (\<lambda>h t. Inl ServiceError) 1 (flat_doc [run_only [0x4F60, 0x597D]]))
     = [Error_translating [0x4F60, 0x597D] ServiceError] \<and>
   kids (translate_paragraph_element (\<lambda>h t. Inl ServiceError) 1 (flat_doc [run_only [0x4F60, 0x597D]])) 0 = [1] \<and>
   get_text (translate_paragraph_element (\<lambda>h t. Inl ServiceError) 1 (flat_doc [run_only [0x4F60, 0x597D]])) 1
     = [0x4F60, 0x597D]"
proof -
  let ?d = "flat_doc [run_only [0x4F60, 0x597D]]"
  have t: "strip (get_text ?d 1) = [0x4F60, 0x597D]" "get_text ?d 1 = [0x4F60, 0x597D]"
    by (simp_all add: eval_text)
  have f: "console ?d = []" "kids ?d 0 = [1]" by (simp_all add: flat_doc_def)
  have "strip (get_text ?d 1) \<noteq> []" using t by simp
  from translation_failure_leaves_paragraph [OF this, of "\<lambda>h t. Inl ServiceError" ServiceError "[]"]
  show ?thesis using t f by (simp add: Let_def)
qed

text \<open>
  Claim C4, as amended. Let the trimmed text of a paragraph end with the full-width or
  the ASCII colon, let the translation succeed, and let the new text be one that XML can
  store. Then the text of the paragraph becomes the trimmed text without its trailing
  colons, an opening parenthesis, the trimmed translation, a closing parenthesis and an
  ASCII colon, with every carriage return in it read back as a line feed; no element is
  created, and the child list and the paragraphs of every other element, so of its
  parent, are as before.
\<close>

theorem header_paragraph_is_glossed_in_place:
  assumes "endswith (strip (get_text d p)) [0xFF1A] \<or> endswith (strip (get_text d p)) [0x3A]"
    and "tr (map snd (calls d)) (rstrip_chars [0xFF1A, 0x3A] (strip (get_text d p))) = Inr r"
    and "xml_compatible (rstrip_chars [0xFF1A, 0x3A] (strip (get_text d p)) @ [0x28] @ strip r @ [0x29, 0x3A])"
  shows "let d' = translate_paragraph_element tr p d in
     get_text d' p
       = line_breaks (rstrip_chars [0xFF1A, 0x3A] (strip (get_text d p)) @ [0x28] @ strip r @ [0x29, 0x3A]) \<and>
     (\<forall>c. c \<noteq> p \<longrightarrow> kids d' c = kids d c \<and> paragraphs d' c = paragraphs d c) \<and>
     next_id d' = next_id d \<and> etag d' = etag d \<and> console d' = console d"
proof -
  have eq: "translate_paragraph_element tr p d =
     set_text p (line_breaks (rstrip_chars [0xFF1A, 0x3A] (strip (get_text d p)) @ [0x28] @ strip r @ [0x29, 0x3A]))
       (d\<lparr>calls := calls d @ [(p, rstrip_chars [0xFF1A, 0x3A] (strip (get_text d p)))]\<rparr>)"
    using assms by (rule translate_header)
  show ?thesis
    unfolding eq Let_def
    by (simp add: get_text_set_text kids_set_text set_text_fields paragraphs_def children_tagged_def)
qed

text \<open>
  A header of two ideographs with blanks around it and two colons after it, and an
  answer with blanks around it and a tab and a carriage return inside.
\<close>

theorem header_paragraph_witness:
  "get_text (translate_paragraph_element
       (\<lambda>h t. if t = [0x7ED3, 0x8BBA] then Inr [0x20, 0x43, 0x09, 0x0D, 0x6F, 0x0A] else Inl ServiceError) 1
       (flat_doc [run_only [0x3000, 0x7ED3, 0x8BBA, 0x3A, 0xFF1A, 0x20]])) 1
     = [0x7ED3, 0x8BBA, 0x28, 0x43, 0x09, 0x0A, 0x6F, 0x29, 0x3A] \<and>
   kids (translate_paragraph_element
       (\<lambda>h t. if t = [0x7ED3, 0x8BBA] then Inr [0x20, 0x43, 0x09, 0x0D, 0x6F, 0x0A] else Inl ServiceError) 1
       (flat_doc [run_only [0x3000, 0x7ED3, 0x8BBA, 0x3A, 0xFF1A, 0x20]])) 0
     = [1] \<and>
   next_id (translate_paragraph_element
       (\<lambda>h t. if t = [0x7ED3, 0x8BBA] then Inr [0x20, 0x43, 0x09, 0x0D, 0x6F, 0x0A] else Inl ServiceError) 1
       (flat_doc [run_only [0x3000, 0x7ED3, 0x8BBA, 0x3A, 0xFF1A, 0x20]]))
     = 2"
proof -
  let ?d = "flat_doc [run_only [0x3000, 0x7ED3, 0x8BBA, 0x3A, 0xFF1A, 0x20]]"
  let ?tr = "\<lambda>h t. if t = [0x7ED3, 0x8BBA] then Inr [0x20, 0x43, 0x09, 0x0D, 0x6F, 0x0A] else Inl ServiceError
    :: error + ustr"
  have t: "strip (get_text ?d 1) = [0x7ED3, 0x8BBA, 0x3A, 0xFF1A]" by (simp add: eval_text)
  have f: "next_id ?d = 2" "kids ?d 0 = [1]" by (simp_all add: flat_doc_def)
  have s: "strip [0x20, 0x43, 0x09, 0x0D, 0x6F, 0x0A] = [0x43, 0x09, 0x0D, 0x6F]"
    "rstrip_chars [0xFF1A, 0x3A] [0x7ED3, 0x8BBA, 0x3A, 0xFF1A] = [0x7ED3, 0x8BBA]"
    by (simp_all add: strip_def rstrip_def lstrip_def is_space_def rstrip_chars_def)
  have l: "line_breaks [0x7ED3, 0x8BBA, 0x28, 0x43, 0x09, 0x0D, 0x6F, 0x29, 0x3A]
     = [0x7ED3, 0x8BBA, 0x28, 0x43, 0x09, 0x0A, 0x6F, 0x29, 0x3A]"
    by (simp add: line_breaks_def)
  have h: "endswith (strip (get_text ?d 1)) [0xFF1A] \<or> endswith (strip (get_text ?d 1)) [0x3A]"
    "?tr (map snd (calls ?d)) (rstrip_chars [0xFF1A, 0x3A] (strip (get_text ?d 1)))
       = Inr [0x20, 0x43, 0x09, 0x0D, 0x6F, 0x0A]"
    "xml_compatible (rstrip_chars [0xFF1A, 0x3A] (strip (get_text ?d 1)) @ [0x28]
       @ strip [0x20, 0x43, 0x09, 0x0D, 0x6F, 0x0A] @ [0x29, 0x3A])"
    unfolding t s by (simp_all add: endswith_single xml_compatible_def xml_char_def)
  from header_paragraph_is_glossed_in_place [of ?d 1 ?tr "[0x20, 0x43, 0x09, 0x0D, 0x6F, 0x0A]"] h
  show ?thesis using t f s l by (simp add: Let_def)
qed

text \<open>
  A header-style paragraph of two ideographs with an ideographic space before them and
  the answer "Con": the new text starts with the header and not with the space, so it is
  not the original text without its trailing colon followed by the gloss. And for the
  answer "C" followed by the control character U+0001 the assignment of the new text
  raises: the failure is printed and the paragraph is left without text.
\<close>

theorem header_gloss_drops_blanks:
  "rstrip_chars [0xFF1A, 0x3A] (get_text (flat_doc [run_only [0x3000, 0x7ED3, 0x8BBA, 0xFF1A]]) 1)
       @ [0x28] @ [0x43, 0x6F, 0x6E] @ [0x29, 0x3A]
     = [0x3000, 0x7ED3, 0x8BBA, 0x28, 0x43, 0x6F, 0x6E, 0x29, 0x3A] \<and>
   get_text (translate_paragraph_element (\<lambda>h t. Inr [0x43, 0x6F, 0x6E]) 1
       (flat_doc [run_only [0x3000, 0x7ED3, 0x8BBA, 0xFF1A]])) 1
     = [0x7ED3, 0x8BBA, 0x28, 0x43, 0x6F, 0x6E, 0x29, 0x3A] \<and>
   get_text (translate_paragraph_element (\<lambda>h t. Inr [0x43, 0x01]) 1
       (flat_doc [run_only [0x3000, 0x7ED3, 0x8BBA, 0xFF1A]])) 1 = [] \<and>
   console (translate_paragraph_element (\<lambda>h t. Inr [0x43, 0x01]) 1
       (flat_doc [run_only [0x3000, 0x7ED3, 0x8BBA, 0xFF1A]]))
     = [Error_translating [0x7ED3, 0x8BBA, 0xFF1A] ValueError]"
proof -
  let ?d = "flat_doc [run_only [0x3000, 0x7ED3, 0x8BBA, 0xFF1A]]"
  have g: "get_text ?d 1 = [0x3000, 0x7ED3, 0x8BBA, 0xFF1A]"
    and t: "strip (get_text ?d 1) = [0x7ED3, 0x8BBA, 0xFF1A]"
    by (simp_all add: eval_text)
  have c: "calls ?d = []" "console ?d = []" by (simp_all add: flat_doc_def)
  have s: "rstrip_chars [0xFF1A, 0x3A] [0x3000, 0x7ED3, 0x8BBA, 0xFF1A] = [0x3000, 0x7ED3, 0x8BBA]"
    "rstrip_chars [0xFF1A, 0x3A] [0x7ED3, 0x8BBA, 0xFF1A] = [0x7ED3, 0x8BBA]"
    "strip [0x43, 0x6F, 0x6E] = [0x43, 0x6F, 0x6E]" "strip [0x43, 0x01] = [0x43, 0x01]"
    by (simp_all add: strip_def rstrip_def lstrip_def is_space_def rstrip_chars_def)
  have one: "get_text (translate_paragraph_element (\<lambda>h t. Inr [0x43, 0x6F, 0x6E]) 1 ?d) 1
     = [0x7ED3, 0x8BBA, 0x28, 0x43, 0x6F, 0x6E, 0x29, 0x3A]"
    using t s c
    by (simp add: translate_paragraph_element_def translate_try_def Let_def endswith_single
        assign_text_def xml_compatible_def xml_char_def get_text_set_text)
  have two: "translate_paragraph_element (\<lambda>h t. Inr [0x43, 0x01]) 1 ?d
     = print (Error_translating [0x7ED3, 0x8BBA, 0xFF1A] ValueError)
         (set_text 1 [] (?d\<lparr>calls := [(1, [0x7ED3, 0x8BBA])]\<rparr>))"
    using t s c
    by (simp add: translate_paragraph_element_def translate_try_def Let_def endswith_single
        assign_text_def xml_compatible_def xml_char_def)
  show ?thesis
    unfolding two using g s one c
    by (simp add: get_text_print get_text_set_text print_fields set_text_fields)
qed

lemma insert_after: "take (length pre + 1) (pre @ p # post) @ [n] @ drop (length pre + 1) (pre @ p # post)
    = pre @ p # n # post"
  by simp




section \<open>The merger on texts\<close>

lemma lstrip_strip: "dropWhile is_space (strip s) = strip s"
  by (simp add: strip_def lstrip_def)

lemma last_rstrip: "rstrip s \<noteq> [] \<Longrightarrow> \<not> is_space (last (rstrip s))"
proof -
  assume "rstrip s \<noteq> []"
  then have ne: "dropWhile is_space (rev s) \<noteq> []" by (simp add: rstrip_def)
  then have "\<not> is_space (hd (dropWhile is_space (rev s)))" by (rule hd_dropWhile)
  with ne show ?thesis by (simp add: rstrip_def last_rev)
qed

lemma strip_nonempty_rstrip: "strip s \<noteq> [] \<Longrightarrow> rstrip s \<noteq> []"
  by (auto simp: strip_def lstrip_def)

lemma last_dropWhile: "dropWhile P xs \<noteq> [] \<Longrightarrow> last (dropWhile P xs) = last xs"
  by (induction xs) (auto split: if_splits)

lemma last_strip: assumes "strip s \<noteq> []" shows "\<not> is_space (last (strip s))"
proof -
  have r: "rstrip s \<noteq> []" using assms by (rule strip_nonempty_rstrip)
  have "last (dropWhile is_space (rstrip s)) = last (rstrip s)"
    using assms unfolding strip_def lstrip_def by (rule last_dropWhile)
  then show ?thesis using last_rstrip [OF r] by (simp add: strip_def lstrip_def)
qed

lemma hd_strip: "strip s \<noteq> [] \<Longrightarrow> \<not> is_space (hd (strip s))"
  unfolding strip_def lstrip_def by (rule hd_dropWhile)

lemma rstrip_keep: "s \<noteq> [] \<Longrightarrow> \<not> is_space (last s) \<Longrightarrow> rstrip s = s"
  by (cases s rule: rev_cases) (auto simp: rstrip_def)

lemma strip_append:
  assumes "strip a \<noteq> []" and "y \<noteq> []" and "\<not> is_space (last y)"
  shows "strip (rstrip a @ y) = strip a @ y"
proof -
  have "rstrip (rstrip a @ y) = rstrip a @ y"
    using assms(2,3) by (intro rstrip_keep) simp_all
  moreover have "\<exists>x\<in>set (rstrip a). \<not> is_space x"
  proof (rule ccontr)
    assume "\<not> (\<exists>x\<in>set (rstrip a). \<not> is_space x)"
    then have "dropWhile is_space (rstrip a) = []" by simp
    with assms(1) show False by (simp add: strip_def lstrip_def)
  qed
  then obtain x where "x \<in> set (rstrip a)" "\<not> is_space x" by blast
  then have "dropWhile is_space (rstrip a @ y) = dropWhile is_space (rstrip a) @ y"
    by (rule dropWhile_append1)
  ultimately show ?thesis by (simp add: strip_def lstrip_def)
qed

lemma strip_joined:
  assumes "strip a \<noteq> []" and "strip b \<noteq> []"
  shows "strip (joined a b) = strip a @ sep (strip a) (strip b) @ strip b"
  unfolding joined_def
  using assms(2) last_strip [OF assms(2)] by (intro strip_append [OF assms(1)]) simp_all

lemma numbered_cases:
  assumes "starts_with_number (strip a)"
  shows "(list_all is_decimal (strip a) \<and> strip a \<noteq> []) \<or>
    (\<exists>ds rest. strip a = ds @ 0x2E # rest \<and> ds \<noteq> [] \<and> list_all is_decimal ds)"
proof -
  let ?s = "strip a"
  let ?ds = "takeWhile is_decimal ?s"
  let ?v = "dropWhile is_decimal ?s"
  have m: "?ds \<noteq> []" "marker_end ?v"
    using assms by (simp_all add: starts_with_number_def re_match_numeric_marker lstrip_strip)
  have split: "?s = ?ds @ ?v" by simp
  have dec: "list_all is_decimal ?ds" by (simp add: list_all_iff) (meson set_takeWhileD)
  have ne: "?s \<noteq> []" using m(1) by auto
  show ?thesis
  proof (cases "?v = []")
    case True
    then have "?s = ?ds" using split by (metis append_Nil2)
    then have "list_all is_decimal ?s" using dec by metis
    with ne show ?thesis by blast
  next
    case False
    have "?v \<noteq> [10]"
    proof
      assume v: "?v = [10]"
      have "last ?s = last ?v" using False split by (metis last_appendR)
      then have "is_space (last ?s)" using v by (simp add: is_space_def)
      with last_strip [OF ne] show False by simp
    qed
    with m(2) False have "hd ?v = 0x2E" unfolding marker_end_def by blast
    with False have "?v = 0x2E # tl ?v" by (cases ?v) simp_all
    with split have "?s = ?ds @ 0x2E # tl ?v" by simp
    with m(1) dec show ?thesis by blast
  qed
qed

lemma numbered_with_dot:
  assumes "ds \<noteq> []" and "list_all is_decimal ds"
  shows "starts_with_number (ds @ 0x2E # rest)"
proof -
  have all: "\<And>x. x \<in> set ds \<Longrightarrow> is_decimal x" using assms(2) by (simp add: list_all_iff)
  obtain c cs where ds: "ds = c # cs" using assms(1) by (cases ds) auto
  then have "is_decimal c" using all by simp
  then have sp: "dropWhile is_space (ds @ 0x2E # rest) = ds @ 0x2E # rest"
    using ds decimal_not_space by simp
  have "takeWhile is_decimal (ds @ 0x2E # rest) = ds"
    using all by (simp add: not_decimal_dot)
  moreover have "dropWhile is_decimal (ds @ 0x2E # rest) = 0x2E # rest"
    using all by (simp add: not_decimal_dot)
  ultimately show ?thesis
    using assms(1) by (simp add: starts_with_number_def re_match_numeric_marker sp marker_end_def)
qed

lemma number_stays:
  assumes "can_merge a b" and "\<not> long_number (strip a)" and "starts_with_number (strip a)"
  shows "starts_with_number (strip (joined a b))"
proof -
  have ne: "strip a \<noteq> []" "strip b \<noteq> []" and nh: "\<not> last_is_header (strip a)"
    using assms(1) by (simp_all add: can_merge_def)
  have len: "40 \<le> length (strip a)"
    using nh assms(3) by (simp add: last_is_header_def starts_with_number_def)
  from numbered_cases [OF assms(3)] show ?thesis
  proof
    assume "list_all is_decimal (strip a) \<and> strip a \<noteq> []"
    with len assms(2) show ?thesis by (simp add: long_number_def)
  next
    assume "\<exists>ds rest. strip a = ds @ 0x2E # rest \<and> ds \<noteq> [] \<and> list_all is_decimal ds"
    then obtain ds rest where s: "strip a = ds @ 0x2E # rest" "ds \<noteq> []" "list_all is_decimal ds"
      by blast
    have "strip (joined a b) = ds @ 0x2E # (rest @ sep (strip a) (strip b) @ strip b)"
      using strip_joined [OF ne] s(1) by simp
    then show ?thesis using numbered_with_dot [OF s(2,3)] by simp
  qed
qed

lemma short_number_stays:
  assumes "can_merge a b" and "\<not> long_number (strip a)"
  shows "\<not> long_number (strip (joined a b))"
proof
  assume l: "long_number (strip (joined a b))"
  have ne: "strip a \<noteq> []" "strip b \<noteq> []" and nh: "\<not> last_is_header (strip a)"
    using assms(1) by (simp_all add: can_merge_def)
  have dec: "list_all is_decimal (strip a)"
    using l strip_joined [OF ne] by (simp add: long_number_def)
  then have all: "\<And>x. x \<in> set (strip a) \<Longrightarrow> is_decimal x" by (simp add: list_all_iff)
  have tw: "takeWhile is_decimal (strip a) = strip a" and dw: "dropWhile is_decimal (strip a) = []"
    using all by simp_all
  have "starts_with_number (strip a)"
    unfolding starts_with_number_def re_match_numeric_marker lstrip_strip tw dw
    using ne(1) by (simp add: marker_end_def)
  then have "40 \<le> length (strip a)"
    using nh by (simp add: last_is_header_def starts_with_number_def)
  with dec assms(2) show False by (simp add: long_number_def)
qed

lemma blocked_stays:
  assumes "\<not> can_merge z a" and "can_merge a b" and "\<not> long_number (strip a)"
  shows "\<not> can_merge z (joined a b)"
proof -
  have ne: "strip a \<noteq> []" using assms(2) by (simp add: can_merge_def)
  from assms(1) ne have "strip z = [] \<or> is_terminated (strip z) \<or> last_is_header (strip z)
      \<or> starts_with_number (strip a)"
    by (auto simp: can_merge_def)
  then show ?thesis using number_stays [OF assms(2,3)] by (auto simp: can_merge_def)
qed

lemma merge_texts_nonempty: "merge_texts l ts \<noteq> []"
  by (induction ts arbitrary: l) auto

lemma merge_texts_settled:
  assumes "\<not> long_number (strip l)" and "\<forall>t\<in>set ts. \<not> long_number (strip t)"
  shows "settled (merge_texts l ts) \<and> (\<forall>z. \<not> can_merge z l \<longrightarrow> \<not> can_merge z (hd (merge_texts l ts)))"
  using assms
proof (induction ts arbitrary: l)
  case Nil
  then show ?case by simp
next
  case (Cons t ts)
  show ?case
  proof (cases "can_merge l t")
    case True
    have "\<not> long_number (strip (joined l t))"
      using True Cons.prems(1) by (rule short_number_stays)
    then have ih: "settled (merge_texts (joined l t) ts)"
      "\<forall>z. \<not> can_merge z (joined l t) \<longrightarrow> \<not> can_merge z (hd (merge_texts (joined l t) ts))"
      using Cons.IH [of "joined l t"] Cons.prems(2) by simp_all
    have "\<forall>z. \<not> can_merge z l \<longrightarrow> \<not> can_merge z (joined l t)"
      using True Cons.prems(1) blocked_stays by blast
    with ih True show ?thesis by simp
  next
    case False
    have ih: "settled (merge_texts t ts)"
      "\<forall>z. \<not> can_merge z t \<longrightarrow> \<not> can_merge z (hd (merge_texts t ts))"
      using Cons.IH [of t] Cons.prems(2) by simp_all
    obtain r rs where r: "merge_texts t ts = r # rs"
      using merge_texts_nonempty [of t ts] by (cases "merge_texts t ts") auto
    have "\<not> can_merge l r" using ih(2) False r by simp
    with ih(1) r False show ?thesis by simp
  qed
qed

section \<open>The merger on a well-formed body\<close>

lemma merge_step_no_merge:
  "\<not> can_merge (get_text d last_p) (get_text d curr_p) \<Longrightarrow> merge_step curr_p (last_p, n, d) = (curr_p, n, d)"
  unfolding can_merge_def
  using merge_step_empty [of d curr_p last_p n] merge_step_last_empty [of d last_p curr_p n]
    merge_step_blocked [of d last_p curr_p n]
  by blast

lemma settled_loop:
  "settled (map (get_text d) (l # ps)) \<Longrightarrow> merge_loop ps (l, m, d) = (last (l # ps), m, d)"
proof (induction ps arbitrary: l)
  case Nil
  then show ?case by simp
next
  case (Cons c ps)
  then have "\<not> can_merge (get_text d l) (get_text d c)" "settled (map (get_text d) (c # ps))"
    by simp_all
  then show ?case using Cons.IH [of c] by (simp add: merge_step_no_merge)
qed

lemma get_text_print_fun: "get_text (print x d) = get_text d"
  by (rule ext) (simp add: get_text_print)

lemma paragraphs_print: "paragraphs (print x d) c = paragraphs d c"
  by (simp add: paragraphs_def children_tagged_def print_def)

lemma body_well_formed_print: "body_well_formed (print x d) = body_well_formed d"
  by (simp add: body_well_formed_def paragraphs_print print_fields)

lemma filter_absent: "c \<notin> set xs \<Longrightarrow> filter (\<lambda>x. x \<noteq> c) xs = xs"
  by (induction xs) auto

lemma remove1_filter_distinct:
  "distinct xs \<Longrightarrow> filter P (remove1 c xs) = filter (\<lambda>x. x \<noteq> c) (filter P xs)"
proof (induction xs)
  case Nil
  then show ?case by simp
next
  case (Cons x xs)
  show ?case
  proof (cases "x = c")
    case True
    then have "c \<notin> set (filter P xs)" using Cons.prems by simp
    then have "filter (\<lambda>x. x \<noteq> c) (filter P xs) = filter P xs" by (rule filter_absent)
    with True show ?thesis by simp
  next
    case False
    then show ?thesis using Cons by simp
  qed
qed

lemma merge_step_well_formed:
  assumes wf: "body_well_formed d" and ps: "paragraphs d (body d) = kept @ l # c # ps"
    and cm: "can_merge (get_text d l) (get_text d c)"
  shows "\<exists>d2. merge_step c (l, m, d) = (l, m + 1, d2) \<and> body_well_formed d2 \<and> body d2 = body d \<and>
     paragraphs d2 (body d) = kept @ l # ps \<and> get_text d2 l = joined (get_text d l) (get_text d c) \<and>
     (\<forall>q. q \<noteq> l \<longrightarrow> get_text d2 q = get_text d q) \<and> console d2 = console d"
proof -
  let ?b = "body d"
  let ?t = "joined (get_text d l) (get_text d c)"
  let ?d1 = "set_text l ?t d"
  let ?d2 = "?d1\<lparr>kids := (kids ?d1)(?b := remove1 c (kids ?d1 ?b)), parent := (parent ?d1)(c := None)\<rparr>"
  have dk: "distinct (kids d ?b)" and nb: "etag d ?b \<noteq> ''w:p''"
    and par: "\<And>p. p \<in> set (paragraphs d ?b) \<Longrightarrow> parent d p = Some ?b"
    and box: "\<And>p q. p \<in> set (paragraphs d ?b) \<Longrightarrow> q \<in> set (paragraphs d ?b) \<Longrightarrow> q \<notin> set (kids d p)"
    using wf by (auto simp: body_well_formed_def list_all_iff)
  have dp: "distinct (kept @ l # c # ps)"
    using dk ps [symmetric] by (simp add: paragraphs_def children_tagged_def)
  have mem: "l \<in> set (paragraphs d ?b)" "c \<in> set (paragraphs d ?b)" using ps by simp_all
  have tagp: "\<And>p. p \<in> set (paragraphs d ?b) \<Longrightarrow> etag d p = ''w:p'' \<and> p \<in> set (kids d ?b)"
    by (simp add: paragraphs_def children_tagged_def)
  have lb: "l \<noteq> ?b" using tagp [OF mem(1)] nb by auto
  have lc: "l \<noteq> c" using dp by auto
  have p1: "parent ?d1 c = Some ?b" using par [OF mem(2)] box [OF mem] by (simp add: parent_set_text)
  have k1: "kids ?d1 ?b = kids d ?b" using lb by (simp add: kids_set_text)
  have rm: "remove_from_parent c ?d1 = Inr ?d2"
    using p1 k1 tagp [OF mem(2)] by (simp add: remove_from_parent_ok)
  have nn: "strip (get_text d l) \<noteq> []" "strip (get_text d c) \<noteq> []"
    "\<not> is_terminated (strip (get_text d l))" "\<not> starts_with_number (strip (get_text d c))"
    "\<not> last_is_header (strip (get_text d l))"
    using cm by (simp_all add: can_merge_def)
  have step: "merge_step c (l, m, d) = (l, m + 1, ?d2)"
    using rm by (simp add: merge_step_merge [OF nn])
  have et: "etag ?d2 = etag d" and bd: "body ?d2 = ?b" and co: "console ?d2 = console d"
    by (simp_all add: set_text_fields)
  have k2: "kids ?d2 = (\<lambda>n. if n = ?b then remove1 c (kids d ?b) else if n = l then [] else kids d n)"
    using lb by (auto simp: kids_set_text k1 fun_eq_iff)
  have "paragraphs ?d2 ?b = filter (\<lambda>x. x \<noteq> c) (paragraphs d ?b)"
    using dk by (simp add: paragraphs_def children_tagged_def et k2 remove1_filter_distinct)
  also have "\<dots> = kept @ l # ps" using dp ps by (simp add: filter_absent)
  finally have ps2: "paragraphs ?d2 ?b = kept @ l # ps" .
  have gt: "\<And>q. get_text ?d2 q = get_text ?d1 q" by (simp add: get_text_def)
  have wf2: "body_well_formed ?d2"
    unfolding body_well_formed_def bd ps2 list_all_iff
  proof (intro conjI ballI)
    show "distinct (kids ?d2 ?b)" using dk by (simp add: k2)
    show "etag ?d2 ?b \<noteq> ''w:p''" using nb by (simp add: et)
  next
    fix p assume p: "p \<in> set (kept @ l # ps)"
    then have pm: "p \<in> set (paragraphs d ?b)" using ps by auto
    have pc: "p \<noteq> c" using p dp by auto
    have "p \<notin> set (kids d l)" using box [OF mem(1) pm] .
    then show "parent ?d2 p = Some ?b" using pc par [OF pm] by (simp add: parent_set_text)
    fix q assume q: "q \<in> set (kept @ l # ps)"
    then have qm: "q \<in> set (paragraphs d ?b)" using ps by auto
    have "p \<noteq> ?b" using tagp [OF pm] nb by auto
    then show "q \<notin> set (kids ?d2 p)" using box [OF pm qm] by (simp add: k2)
  qed
  have "get_text ?d2 l = ?t" "\<forall>q. q \<noteq> l \<longrightarrow> get_text ?d2 q = get_text d q"
    by (simp_all add: gt get_text_set_text)
  with step wf2 bd ps2 co show ?thesis by blast
qed

lemma merge_loop_texts:
  assumes "body_well_formed d" and "paragraphs d (body d) = kept @ l # ps"
  shows "\<exists>l' m' d'. merge_loop ps (l, m, d) = (l', m', d') \<and> body_well_formed d' \<and> body d' = body d \<and>
     (\<exists>rest. paragraphs d' (body d) = kept @ rest \<and>
        map (get_text d') rest = merge_texts (get_text d l) (map (get_text d) ps)) \<and>
     (\<forall>q\<in>set kept. get_text d' q = get_text d q)"
  using assms
proof (induction ps arbitrary: kept l m d)
  case Nil
  have "paragraphs d (body d) = kept @ [l] \<and> map (get_text d) [l] = merge_texts (get_text d l) (map (get_text d) [])"
    using Nil.prems(2) by simp
  then show ?case using Nil.prems(1) by auto
next
  case (Cons c ps)
  have dp: "distinct (kept @ l # c # ps)"
    using Cons.prems unfolding body_well_formed_def
    by (metis distinct_filter paragraphs_def children_tagged_def)
  show ?case
  proof (cases "can_merge (get_text d l) (get_text d c)")
    case True
    from merge_step_well_formed [OF Cons.prems True, of m]
    obtain d2 where d2: "merge_step c (l, m, d) = (l, m + 1, d2)" "body_well_formed d2" "body d2 = body d"
      "paragraphs d2 (body d) = kept @ l # ps" "get_text d2 l = joined (get_text d l) (get_text d c)"
      "\<forall>q. q \<noteq> l \<longrightarrow> get_text d2 q = get_text d q"
      by blast
    have same: "map (get_text d2) ps = map (get_text d) ps" using d2(6) dp by auto
    have keptsame: "\<forall>q\<in>set kept. get_text d2 q = get_text d q" using d2(6) dp by auto
    from Cons.IH [of d2 kept l "m + 1"] d2(2,3,4)
    obtain l' m' d' rest where r: "merge_loop ps (l, m + 1, d2) = (l', m', d')" "body_well_formed d'"
      "body d' = body d2" "paragraphs d' (body d2) = kept @ rest"
      "map (get_text d') rest = merge_texts (get_text d2 l) (map (get_text d2) ps)"
      "\<forall>q\<in>set kept. get_text d' q = get_text d2 q"
      by auto
    have "map (get_text d') rest = merge_texts (get_text d l) (map (get_text d) (c # ps))"
      using r(5) True by (simp add: d2(5) same)
    moreover have "merge_loop (c # ps) (l, m, d) = (l', m', d')" using d2(1) r(1) by simp
    moreover have "\<forall>q\<in>set kept. get_text d' q = get_text d q" using r(6) keptsame by simp
    ultimately show ?thesis using r(2,3,4) d2(3) by auto
  next
    case False
    then have step: "merge_step c (l, m, d) = (c, m, d)" by (rule merge_step_no_merge)
    have "paragraphs d (body d) = (kept @ [l]) @ c # ps" using Cons.prems(2) by simp
    from Cons.IH [OF Cons.prems(1) this, of m]
    obtain l' m' d' rest where r: "merge_loop ps (c, m, d) = (l', m', d')" "body_well_formed d'"
      "body d' = body d" "paragraphs d' (body d) = (kept @ [l]) @ rest"
      "map (get_text d') rest = merge_texts (get_text d c) (map (get_text d) ps)"
      "\<forall>q\<in>set (kept @ [l]). get_text d' q = get_text d q"
      by auto
    have "paragraphs d' (body d) = kept @ (l # rest)" using r(4) by simp
    moreover have "map (get_text d') (l # rest) = merge_texts (get_text d l) (map (get_text d) (c # ps))"
      using r(5,6) False by simp
    moreover have "merge_loop (c # ps) (l, m, d) = (l', m', d')" using step r(1) by simp
    moreover have "\<forall>q\<in>set kept. get_text d' q = get_text d q" using r(6) by simp
    ultimately show ?thesis using r(2,3) by blast
  qed
qed

lemma merge_paragraphs_texts:
  assumes "body_well_formed d" and "paragraphs d (body d) = p0 # ps"
  shows "body_well_formed (merge_paragraphs d) \<and> body (merge_paragraphs d) = body d \<and>
     map (get_text (merge_paragraphs d)) (paragraphs (merge_paragraphs d) (body d))
       = merge_texts (get_text d p0) (map (get_text d) ps)"
proof -
  let ?d0 = "print Merging d"
  have wf0: "body_well_formed ?d0" using assms(1) by (simp add: body_well_formed_print)
  have ps0: "paragraphs ?d0 (body ?d0) = [] @ p0 # ps" using assms(2) by (simp add: paragraphs_print print_fields)
  from merge_loop_texts [OF wf0 ps0, of 0]
  obtain l' m' d' rest where r: "merge_loop ps (p0, 0, ?d0) = (l', m', d')" "body_well_formed d'"
    "body d' = body ?d0" "paragraphs d' (body ?d0) = [] @ rest"
    "map (get_text d') rest = merge_texts (get_text ?d0 p0) (map (get_text ?d0) ps)"
    by blast
  have eq: "merge_paragraphs d = print (Merged m') d'"
    using assms(2) r(1) by (simp add: merge_paragraphs_def Let_def paragraphs_print print_fields)
  show ?thesis
    unfolding eq using r(2-5)
    by (simp add: body_well_formed_print paragraphs_print print_fields get_text_print_fun)
qed

lemma merge_paragraphs_settled:
  assumes "settled (map (get_text d) (paragraphs d (body d)))"
  shows "\<exists>ls. merge_paragraphs d = d\<lparr>console := console d @ ls\<rparr>"
proof (cases "paragraphs d (body d)")
  case Nil
  then have "merge_paragraphs d = print Merging d"
    by (simp add: merge_paragraphs_def Let_def paragraphs_print print_fields)
  then have "merge_paragraphs d = d\<lparr>console := console d @ [Merging]\<rparr>"
    by (simp add: print_def)
  then show ?thesis by blast
next
  case (Cons p0 ps)
  let ?d0 = "print Merging d"
  have "settled (map (get_text ?d0) (p0 # ps))" using assms Cons by (simp add: get_text_print_fun)
  then have "merge_loop ps (p0, 0, ?d0) = (last (p0 # ps), 0, ?d0)" by (rule settled_loop)
  then have "merge_paragraphs d = print (Merged 0) ?d0"
    using Cons by (simp add: merge_paragraphs_def Let_def paragraphs_print print_fields)
  then have "merge_paragraphs d = d\<lparr>console := console d @ [Merging, Merged 0]\<rparr>"
    by (simp add: print_def)
  then show ?thesis by blast
qed

lemma second_pass_changes_nothing:
  assumes "body_well_formed d"
    and "\<forall>p\<in>set (paragraphs d (body d)). \<not> long_number (strip (get_text d p))"
  shows "\<exists>ls. merge_paragraphs (merge_paragraphs d) = (merge_paragraphs d)\<lparr>console := console (merge_paragraphs d) @ ls\<rparr>"
proof (cases "paragraphs d (body d)")
  case Nil
  have "merge_paragraphs d = print Merging d"
    using Nil by (simp add: merge_paragraphs_def Let_def paragraphs_print print_fields)
  then have "paragraphs (merge_paragraphs d) (body (merge_paragraphs d)) = []"
    using Nil by (simp add: paragraphs_print print_fields)
  then have "settled (map (get_text (merge_paragraphs d)) (paragraphs (merge_paragraphs d) (body (merge_paragraphs d))))"
    by simp
  then show ?thesis by (rule merge_paragraphs_settled)
next
  case (Cons p0 ps)
  from merge_paragraphs_texts [OF assms(1) Cons]
  have b: "body (merge_paragraphs d) = body d"
    and t: "map (get_text (merge_paragraphs d)) (paragraphs (merge_paragraphs d) (body d))
       = merge_texts (get_text d p0) (map (get_text d) ps)"
    by simp_all
  have "settled (merge_texts (get_text d p0) (map (get_text d) ps))"
    using merge_texts_settled [of "get_text d p0" "map (get_text d) ps"] assms(2) Cons by simp
  then have "settled (map (get_text (merge_paragraphs d)) (paragraphs (merge_paragraphs d) (body (merge_paragraphs d))))"
    using b t by simp
  then show ?thesis by (rule merge_paragraphs_settled)
qed

text \<open>
  Claim C7, as amended. In a document with a well-formed body in which no body paragraph
  has a trimmed text of forty or more characters that are all decimal digits, running
  the merger on the result of the merger changes nothing but the console: every element
  has the same tag, children, parent and content, so the same text, and every container
  has the same paragraphs.
\<close>

theorem merging_twice_changes_nothing:
  assumes "body_well_formed d"
    and "\<forall>p\<in>set (paragraphs d (body d)). \<not> long_number (strip (get_text d p))"
  shows "let d1 = merge_paragraphs d; d2 = merge_paragraphs d1 in
     kids d2 = kids d1 \<and> content d2 = content d1 \<and> parent d2 = parent d1 \<and> etag d2 = etag d1 \<and>
     next_id d2 = next_id d1 \<and> body d2 = body d1 \<and> get_text d2 = get_text d1 \<and>
     paragraphs d2 = paragraphs d1"
proof -
  from second_pass_changes_nothing [OF assms]
  obtain ls where eq: "merge_paragraphs (merge_paragraphs d)
      = (merge_paragraphs d)\<lparr>console := console (merge_paragraphs d) @ ls\<rparr>"
    by blast
  show ?thesis
    unfolding Let_def eq
    by (simp add: fun_eq_iff get_text_def paragraphs_def children_tagged_def)
qed

lemma paragraphs_flat_doc: "paragraphs (flat_doc cs) 0 = [1..<Suc (length cs)]"
proof -
  have "filter (\<lambda>n. (if n = 0 then ''w:body'' else ''w:p'') = ''w:p'') [1..<Suc (length cs)]
      = [1..<Suc (length cs)]"
    by (rule filter_True) auto
  then show ?thesis by (simp add: paragraphs_def children_tagged_def flat_doc_def)
qed

lemma flat_doc_fields:
  "body (flat_doc cs) = 0" "etag (flat_doc cs) n = (if n = 0 then ''w:body'' else ''w:p'')"
  "next_id (flat_doc cs) = Suc (length cs)" "console (flat_doc cs) = []" "calls (flat_doc cs) = []"
  by (simp_all add: flat_doc_def)

lemma flat_doc_well_formed: "body_well_formed (flat_doc cs)"
  unfolding body_well_formed_def list_all_iff flat_doc_fields paragraphs_flat_doc
  by (auto simp: kids_flat_doc parent_flat_doc)

lemma strip_keep_all: "s \<noteq> [] \<Longrightarrow> \<not> is_space (hd s) \<Longrightarrow> \<not> is_space (last s) \<Longrightarrow>
    strip s = s \<and> rstrip s = s"
  by (simp add: strip_keep rstrip_keep)

lemma map_eq_two: "map f xs = [a, b] \<Longrightarrow> \<exists>x y. xs = [x, y] \<and> f x = a \<and> f y = b"
  by (cases xs) (auto simp: map_eq_Cons_conv)

theorem merging_twice_witness:
  "map (get_text (merge_paragraphs (flat_doc
        [run_only [0x7B2C, 0x4E00, 0x6BB5, 0x6CA1, 0x6709, 0x6807, 0x70B9],
         run_only [0x7EE7, 0x7EED, 0x8FD9, 0x6BB5, 0x8BDD, 0x3002],
         run_only [0x32, 0x2E, 0x20, 0x7B2C, 0x4E8C, 0x9879, 0x5185, 0x5BB9]])))
     (paragraphs (merge_paragraphs (flat_doc
        [run_only [0x7B2C, 0x4E00, 0x6BB5, 0x6CA1, 0x6709, 0x6807, 0x70B9],
         run_only [0x7EE7, 0x7EED, 0x8FD9, 0x6BB5, 0x8BDD, 0x3002],
         run_only [0x32, 0x2E, 0x20, 0x7B2C, 0x4E8C, 0x9879, 0x5185, 0x5BB9]])) 0)
     = [[0x7B2C, 0x4E00, 0x6BB5, 0x6CA1, 0x6709, 0x6807, 0x70B9, 0x7EE7, 0x7EED, 0x8FD9, 0x6BB5, 0x8BDD, 0x3002],
        [0x32, 0x2E, 0x20, 0x7B2C, 0x4E8C, 0x9879, 0x5185, 0x5BB9]] \<and>
   kids (merge_paragraphs (merge_paragraphs (flat_doc
        [run_only [0x7B2C, 0x4E00, 0x6BB5, 0x6CA1, 0x6709, 0x6807, 0x70B9],
         run_only [0x7EE7, 0x7EED, 0x8FD9, 0x6BB5, 0x8BDD, 0x3002],
         run_only [0x32, 0x2E, 0x20, 0x7B2C, 0x4E8C, 0x9879, 0x5185, 0x5BB9]])))
     = kids (merge_paragraphs (flat_doc
        [run_only [0x7B2C, 0x4E00, 0x6BB5, 0x6CA1, 0x6709, 0x6807, 0x70B9],
         run_only [0x7EE7, 0x7EED, 0x8FD9, 0x6BB5, 0x8BDD, 0x3002],
         run_only [0x32, 0x2E, 0x20, 0x7B2C, 0x4E8C, 0x9879, 0x5185, 0x5BB9]])) \<and>
   get_text (merge_paragraphs (merge_paragraphs (flat_doc
        [run_only [0x7B2C, 0x4E00, 0x6BB5, 0x6CA1, 0x6709, 0x6807, 0x70B9],
         run_only [0x7EE7, 0x7EED, 0x8FD9, 0x6BB5, 0x8BDD, 0x3002],
         run_only [0x32, 0x2E, 0x20, 0x7B2C, 0x4E8C, 0x9879, 0x5185, 0x5BB9]])))
     = get_text (merge_paragraphs (flat_doc
        [run_only [0x7B2C, 0x4E00, 0x6BB5, 0x6CA1, 0x6709, 0x6807, 0x70B9],
         run_only [0x7EE7, 0x7EED, 0x8FD9, 0x6BB5, 0x8BDD, 0x3002],
         run_only [0x32, 0x2E, 0x20, 0x7B2C, 0x4E8C, 0x9879, 0x5185, 0x5BB9]]))"
proof -
  let ?a = "[0x7B2C, 0x4E00, 0x6BB5, 0x6CA1, 0x6709, 0x6807, 0x70B9] :: ustr"
  let ?b = "[0x7EE7, 0x7EED, 0x8FD9, 0x6BB5, 0x8BDD, 0x3002] :: ustr"
  let ?c = "[0x32, 0x2E, 0x20, 0x7B2C, 0x4E8C, 0x9879, 0x5185, 0x5BB9] :: ustr"
  let ?d = "flat_doc [run_only ?a, run_only ?b, run_only ?c]"
  have wf: "body_well_formed ?d" by (rule flat_doc_well_formed)
  have ps: "paragraphs ?d (body ?d) = 1 # [2, 3]"
    by (simp add: flat_doc_fields paragraphs_flat_doc upt_rec)
  have t: "get_text ?d 1 = ?a" "get_text ?d 2 = ?b" "get_text ?d 3 = ?c"
    by (simp_all add: get_text_flat run_only_def)
  have s: "strip ?a = ?a" "rstrip ?a = ?a" "strip ?b = ?b" "strip ?c = ?c" "strip (?a @ ?b) = ?a @ ?b"
    by (simp_all add: strip_keep_all is_space_def)
  have short: "\<forall>p\<in>set (paragraphs ?d (body ?d)). \<not> long_number (strip (get_text ?d p))"
    unfolding ps using t s by (simp add: long_number_def)
  have c1: "can_merge ?a ?b"
    unfolding can_merge_def s by (simp add: eval_text)
  have j: "joined ?a ?b = ?a @ ?b"
    unfolding joined_def sep_def s by (simp add: isascii_def)
  have c2: "\<not> can_merge (?a @ ?b) ?c"
    unfolding can_merge_def s by (simp add: eval_text)
  have "map (get_text (merge_paragraphs ?d)) (paragraphs (merge_paragraphs ?d) (body ?d))
      = merge_texts (get_text ?d 1) (map (get_text ?d) [2, 3])"
    using merge_paragraphs_texts [OF wf ps] by simp
  also have "\<dots> = [?a @ ?b, ?c]" using t c1 c2 j by simp
  finally have first: "map (get_text (merge_paragraphs ?d)) (paragraphs (merge_paragraphs ?d) 0)
      = [?a @ ?b, ?c]"
    by (simp add: flat_doc_fields)
  from merging_twice_changes_nothing [OF wf short] first
  show ?thesis by (simp add: Let_def)
qed

text \<open>
  The body "a", forty times the digit 1, "x". The first pass keeps the number apart from
  "a", because it starts with a number, and merges "x" into it, because forty characters
  are too many for a heading. The merged text no longer starts with a numeric marker,
  so the second pass merges it into "a".
\<close>

theorem second_pass_merges_long_number:
  "map (get_text (merge_paragraphs (flat_doc [run_only [0x61], run_only (replicate 40 0x31), run_only [0x78]])))
     (paragraphs (merge_paragraphs (flat_doc [run_only [0x61], run_only (replicate 40 0x31), run_only [0x78]])) 0)
     = [[0x61], replicate 40 0x31 @ [0x20, 0x78]] \<and>
   map (get_text (merge_paragraphs (merge_paragraphs
          (flat_doc [run_only [0x61], run_only (replicate 40 0x31), run_only [0x78]]))))
     (paragraphs (merge_paragraphs (merge_paragraphs
          (flat_doc [run_only [0x61], run_only (replicate 40 0x31), run_only [0x78]]))) 0)
     = [[0x61, 0x20] @ replicate 40 0x31 @ [0x20, 0x78]]"
proof -
  define D :: ustr where "D = replicate 40 0x31"
  let ?a = "[0x61] :: ustr"
  let ?x = "[0x78] :: ustr"
  let ?d = "flat_doc [run_only ?a, run_only D, run_only ?x]"
  let ?d1 = "merge_paragraphs ?d"
  have D: "D \<noteq> []" "hd D = 0x31" "last D = 0x31" "length D = 40" "\<And>c. c \<in> set D \<Longrightarrow> is_decimal c"
    by (simp_all add: D_def is_decimal_ascii)
  have tw: "takeWhile is_decimal D = D" "dropWhile is_decimal D = []"
    "takeWhile is_decimal (D @ [0x20, 0x78]) = D" "dropWhile is_decimal (D @ [0x20, 0x78]) = [0x20, 0x78]"
    using D(5) by (simp_all add: is_decimal_ascii)
  have sp: "dropWhile is_space D = D" "dropWhile is_space (D @ [0x20, 0x78]) = D @ [0x20, 0x78]"
    using D(1,2) by (cases D; simp add: is_space_def)+
  have s: "strip ?a = ?a" "rstrip ?a = ?a" "strip ?x = ?x" "strip D = D" "rstrip D = D"
    "strip (D @ [0x20, 0x78]) = D @ [0x20, 0x78]"
    using D(1,2,3) by (simp_all add: strip_keep_all is_space_def)
  have n1: "starts_with_number D"
    unfolding starts_with_number_def re_match_numeric_marker sp tw using D(1) by (simp add: marker_end_def)
  have n2: "\<not> starts_with_number (D @ [0x20, 0x78])"
    unfolding starts_with_number_def re_match_numeric_marker sp tw by (simp add: marker_end_def)
  have c1: "\<not> can_merge ?a D" unfolding can_merge_def s using n1 by simp
  have c2: "can_merge D ?x"
    unfolding can_merge_def s using D(1,3,4)
    by (simp add: is_terminated_iff last_is_header_def starts_with_number_def re_match_numeric_marker
        is_space_def is_decimal_ascii)
  have j2: "joined D ?x = D @ [0x20, 0x78]"
    unfolding joined_def sep_def s using D(3) by (simp add: isascii_def)
  have c3: "can_merge ?a (D @ [0x20, 0x78])"
    unfolding can_merge_def s using n2 D(1)
    by (simp add: is_terminated_iff last_is_header_def re_match_numeric_marker is_space_def
        is_decimal_ascii)
  have j3: "joined ?a (D @ [0x20, 0x78]) = [0x61, 0x20] @ D @ [0x20, 0x78]"
    unfolding joined_def sep_def s using D(1,2) by (simp add: isascii_def)
  have wf: "body_well_formed ?d" by (rule flat_doc_well_formed)
  have ps: "paragraphs ?d (body ?d) = 1 # [2, 3]"
    by (simp add: flat_doc_fields paragraphs_flat_doc upt_rec)
  have t: "get_text ?d 1 = ?a" "get_text ?d 2 = D" "get_text ?d 3 = ?x"
    by (simp_all add: get_text_flat run_only_def)
  from merge_paragraphs_texts [OF wf ps]
  have wf1: "body_well_formed ?d1" and b1: "body ?d1 = 0"
    and "map (get_text ?d1) (paragraphs ?d1 (body ?d))
      = merge_texts (get_text ?d 1) (map (get_text ?d) [2, 3])"
    by (simp_all add: flat_doc_fields)
  then have first: "map (get_text ?d1) (paragraphs ?d1 0) = [?a, D @ [0x20, 0x78]]"
    using t c1 c2 j2 by (simp add: flat_doc_fields)
  then obtain p q where pq: "paragraphs ?d1 0 = [p, q]" "get_text ?d1 p = ?a"
    "get_text ?d1 q = D @ [0x20, 0x78]"
    using map_eq_two by blast
  have "paragraphs ?d1 (body ?d1) = p # [q]" using pq(1) b1 by simp
  from merge_paragraphs_texts [OF wf1 this]
  have "map (get_text (merge_paragraphs ?d1)) (paragraphs (merge_paragraphs ?d1) 0)
      = merge_texts (get_text ?d1 p) (map (get_text ?d1) [q])"
    using b1 by simp
  then have second: "map (get_text (merge_paragraphs ?d1)) (paragraphs (merge_paragraphs ?d1) 0)
      = [[0x61, 0x20] @ D @ [0x20, 0x78]]"
    using pq c3 j3 by simp
  show ?thesis using first second unfolding D_def by simp
qed


section \<open>The whole run on the example documents\<close>

lemma iter_pos: "0 < k \<Longrightarrow> iter k d e = e # concat (map (iter (k - 1) d) (kids d e))"
  by (cases k) simp_all

lemma back_off_pos:
  "0 < k \<Longrightarrow> back_off k d stop e =
     (case next_sibling d e of
        Some s \<Rightarrow> Some s
      | None \<Rightarrow>
          (case parent d e of
             None \<Rightarrow> None
           | Some c \<Rightarrow> if c = stop then None else back_off (k - 1) d stop c))"
  by (cases k) (simp_all split: option.splits)

lemma next_tagged_pos:
  "0 < k \<Longrightarrow> next_tagged k t d stop e =
     (case traverse_to_next d stop e of
        None \<Rightarrow> None
      | Some n \<Rightarrow> if etag d n = t then Some n else next_tagged (k - 1) t d stop n)"
  by (cases k) (simp_all split: option.splits)

lemma iter_print: "iter k (print l d) e = iter k d e"
proof (induction k arbitrary: e)
  case 0
  show ?case by simp
next
  case (Suc k)
  then have "iter k (print l d) = iter k d" by (intro ext)
  then show ?case by (simp add: print_fields)
qed

lemma iter_tagged_print: "iter_tagged t (print l d) e = iter_tagged t d e"
  by (simp add: iter_tagged_def iter_print print_fields)

lemma nested_merge: "merge_paragraphs nested_doc = print (Merged 0) (print Merging nested_doc)"
  by (simp add: merge_paragraphs_def paragraphs_def children_tagged_def print_def nested_doc_def
      merge_step_def get_text_def strip_def lstrip_def rstrip_def Let_def)

lemma nested_steps:
  "translate_and_format tr nested_doc =
     (case process_text_boxes tr 0 (iter_first ''w:txbxContent'' nested_doc_at_step_5 0) (0, nested_doc_at_step_5) of
        None \<Rightarrow> None
      | Some (count_txbx, d9) \<Rightarrow> Some (print (Processed count_txbx) d9))"
proof -
  have a: "print Translating_body (print (Merged 0) (print Merging nested_doc))
     = nested_doc\<lparr>console := [Merging, Merged 0, Translating_body]\<rparr>"
    by (simp add: print_def nested_doc_def)
  have t: "get_text (nested_doc\<lparr>console := c\<rparr>) 1 = []" "get_text (nested_doc\<lparr>console := c\<rparr>) 8 = []" for c
    by (simp_all add: get_text_def nested_doc_def)
  have p: "paragraphs (nested_doc\<lparr>console := c\<rparr>) 0 = [1, 8]"
    "children_tagged ''w:tbl'' (nested_doc\<lparr>console := c\<rparr>) 0 = []" for c
    by (simp_all add: paragraphs_def children_tagged_def nested_doc_def)
  have f: "body (nested_doc\<lparr>console := c\<rparr>) = 0" "sections (nested_doc\<lparr>console := c\<rparr>) = []" for c
    by (simp_all add: nested_doc_def)
  have s: "strip [] = []" by (simp add: strip_def lstrip_def rstrip_def)
  show ?thesis
    unfolding translate_and_format_def nested_merge a Let_def
    using p t f s by (simp add: tables_def print_def nested_doc_at_step_5_def)
qed

lemma first_region: "iter_first ''w:txbxContent'' nested_doc_at_step_5 0 = Some 3"
  by (simp add: iter_first_def next_tagged_pos traverse_to_next_def nested_doc_at_step_5_def nested_doc_def)

lemma second_region: "iter_next ''w:txbxContent'' nested_doc_at_step_5 0 3 = Some 6"
  by (simp add: iter_next_def next_tagged_pos traverse_to_next_def nested_doc_at_step_5_def nested_doc_def)

lemma first_region_paragraphs: "iter_tagged ''w:p'' nested_doc_at_step_5 3 = [4, 7]"
  by (simp add: iter_tagged_def iter_pos nested_doc_at_step_5_def nested_doc_def)

lemma nested_loop:
  "\<exists>d. process_text_boxes (\<lambda>h t. Inr [0x41]) 0 (Some 3) (0, nested_doc_at_step_5) = Some (2, d) \<and>
     calls d = [(4, [0x7532]), (7, [0x4E59]), (7, [0x4E59, 0x28, 0x41, 0x29])] \<and>
     console d = console nested_doc_at_step_5 \<and> body d = 0 \<and>
     iter_tagged ''w:txbxContent'' d 0 = [3, 10] \<and>
     get_text d 11 = [0x4E19, 0xFF1A]"
proof -
  let ?tr = "\<lambda>h t. Inr [0x41] :: error + ustr"
  let ?S1 = "set_text 4 [0x7532, 0x28, 0x41, 0x29, 0x3A] (nested_doc_at_step_5\<lparr>calls := [(4, [0x7532])]\<rparr>)"
  let ?S2 = "set_text 7 [0x4E59, 0x28, 0x41, 0x29, 0x3A] (?S1\<lparr>calls := [(4, [0x7532]), (7, [0x4E59])]\<rparr>)"
  let ?S3 = "set_text 7 [0x4E59, 0x28, 0x41, 0x29, 0x28, 0x41, 0x29, 0x3A]
     (?S2\<lparr>calls := [(4, [0x7532]), (7, [0x4E59]), (7, [0x4E59, 0x28, 0x41, 0x29])]\<rparr>)"
  have sA: "strip [0x41] = [0x41]" by (simp add: strip_def lstrip_def rstrip_def is_space_def)
  have t4: "strip (get_text nested_doc_at_step_5 4) = [0x7532, 0xFF1A]"
    by (simp add: get_text_def nested_doc_at_step_5_def nested_doc_def strip_def lstrip_def rstrip_def is_space_def)
  have r4: "rstrip_chars [0xFF1A, 0x3A] [0x7532, 0xFF1A] = [0x7532]" by (simp add: rstrip_chars_def)
  have c0: "calls nested_doc_at_step_5 = []" by (simp add: nested_doc_at_step_5_def nested_doc_def)
  have one: "translate_paragraph_element ?tr 4 nested_doc_at_step_5 = ?S1"
    using translate_header [of nested_doc_at_step_5 4 ?tr "[0x41]"] c0
    by (simp add: t4 r4 sA endswith_single xml_compatible_def xml_char_def line_breaks_def)
  have t7: "strip (get_text ?S1 7) = [0x4E59, 0xFF1A]"
    by (simp add: get_text_def set_text_def nested_doc_at_step_5_def nested_doc_def strip_def lstrip_def rstrip_def is_space_def)
  have r7: "rstrip_chars [0xFF1A, 0x3A] [0x4E59, 0xFF1A] = [0x4E59]" by (simp add: rstrip_chars_def)
  have c1: "calls ?S1 = [(4, [0x7532])]" by (simp add: set_text_fields)
  have two: "translate_paragraph_element ?tr 7 ?S1 = ?S2"
    using translate_header [of ?S1 7 ?tr "[0x41]"] c1
    by (simp add: t7 r7 sA endswith_single xml_compatible_def xml_char_def line_breaks_def)
  have t7': "strip (get_text ?S2 7) = [0x4E59, 0x28, 0x41, 0x29, 0x3A]"
    by (simp add: get_text_set_text strip_def lstrip_def rstrip_def is_space_def)
  have r7': "rstrip_chars [0xFF1A, 0x3A] [0x4E59, 0x28, 0x41, 0x29, 0x3A] = [0x4E59, 0x28, 0x41, 0x29]"
    by (simp add: rstrip_chars_def)
  have c2: "calls ?S2 = [(4, [0x7532]), (7, [0x4E59])]" by (simp add: set_text_fields)
  have three: "translate_paragraph_element ?tr 7 ?S2 = ?S3"
    using translate_header [of ?S2 7 ?tr "[0x41]"] c2
    by (simp add: t7' r7' sA endswith_single xml_compatible_def xml_char_def line_breaks_def)
  have box1: "process_text_box_paragraphs ?tr (iter_tagged ''w:p'' nested_doc_at_step_5 3) nested_doc_at_step_5 = ?S2"
    unfolding first_region_paragraphs using t4 t7 one two by simp
  have nxt: "iter_next ''w:txbxContent'' ?S2 0 6 = None"
    by (simp add: iter_next_def next_tagged_pos traverse_to_next_def back_off_pos next_sibling_def
        set_text_def nested_doc_at_step_5_def nested_doc_def)
  have ps2: "iter_tagged ''w:p'' ?S2 6 = [7]"
    by (simp add: iter_tagged_def iter_pos set_text_def nested_doc_at_step_5_def nested_doc_def)
  have box2: "process_text_box_paragraphs ?tr (iter_tagged ''w:p'' ?S2 6) ?S2 = ?S3"
    unfolding ps2 using t7' three by simp
  have run: "process_text_boxes ?tr 0 (Some 3) (0, nested_doc_at_step_5) = Some (2, ?S3)"
    apply (subst process_text_boxes.simps)
    apply (simp only: option.case fst_conv snd_conv second_region box1)
    apply (subst process_text_boxes.simps)
    apply (simp only: option.case fst_conv snd_conv nxt box2)
    apply (subst process_text_boxes.simps)
    apply simp
    done
  have regions: "iter_tagged ''w:txbxContent'' ?S3 0 = [3, 10]"
    by (simp add: iter_tagged_def iter_pos set_text_def nested_doc_at_step_5_def nested_doc_def)
  have t11: "get_text ?S3 11 = [0x4E19, 0xFF1A]"
    by (simp add: get_text_def set_text_def nested_doc_at_step_5_def nested_doc_def)
  have cs: "calls ?S3 = [(4, [0x7532]), (7, [0x4E59]), (7, [0x4E59, 0x28, 0x41, 0x29])]"
    "console ?S3 = console nested_doc_at_step_5" "body ?S3 = 0"
    by (simp_all add: set_text_fields nested_doc_at_step_5_def nested_doc_def)
  show ?thesis
    using run regions t11 cs by blast
qed

text \<open>
  The document with the merged cell: the cell is listed twice in its row, so its
  paragraph is translated twice, the second time with the gloss of the first.
\<close>

lemma merged_cell_is_translated_twice:
  "\<exists>d. translate_and_format (\<lambda>h t. Inr [0x41]) merged_cell_doc = Some d \<and>
     calls d = [(4, [0x4E59]), (4, [0x4E59, 0x28, 0x41, 0x29])] \<and>
     get_text d 4 = [0x4E59, 0x28, 0x41, 0x29, 0x28, 0x41, 0x29, 0x3A] \<and>
     console d = [Merging, Translating_body, Translating_headers_footers, Translating_tables,
       Translating_text_boxes, Processed 0]"
proof -
  let ?tr = "\<lambda>h t. Inr [0x41] :: error + ustr"
  let ?D = "merged_cell_doc\<lparr>console := [Merging, Translating_body, Translating_headers_footers,
     Translating_tables]\<rparr>"
  let ?S1 = "set_text 4 [0x4E59, 0x28, 0x41, 0x29, 0x3A] (?D\<lparr>calls := [(4, [0x4E59])]\<rparr>)"
  let ?S2 = "set_text 4 [0x4E59, 0x28, 0x41, 0x29, 0x28, 0x41, 0x29, 0x3A]
     (?S1\<lparr>calls := [(4, [0x4E59]), (4, [0x4E59, 0x28, 0x41, 0x29])]\<rparr>)"
  have sA: "strip [0x41] = [0x41]" by (simp add: strip_def lstrip_def rstrip_def is_space_def)
  have t1: "strip (get_text ?D 4) = [0x4E59, 0xFF1A]"
    by (simp add: get_text_def merged_cell_doc_def strip_def lstrip_def rstrip_def is_space_def)
  have r1: "rstrip_chars [0xFF1A, 0x3A] [0x4E59, 0xFF1A] = [0x4E59]" by (simp add: rstrip_chars_def)
  have c0: "calls ?D = []" by (simp add: merged_cell_doc_def)
  have one: "translate_paragraph_element ?tr 4 ?D = ?S1"
    using translate_header [of ?D 4 ?tr "[0x41]"] c0
    by (simp add: t1 r1 sA endswith_single xml_compatible_def xml_char_def line_breaks_def)
  have t2: "strip (get_text ?S1 4) = [0x4E59, 0x28, 0x41, 0x29, 0x3A]"
    by (simp add: get_text_set_text strip_def lstrip_def rstrip_def is_space_def)
  have r2: "rstrip_chars [0xFF1A, 0x3A] [0x4E59, 0x28, 0x41, 0x29, 0x3A] = [0x4E59, 0x28, 0x41, 0x29]"
    by (simp add: rstrip_chars_def)
  have c1: "calls ?S1 = [(4, [0x4E59])]" by (simp add: set_text_fields)
  have two: "translate_paragraph_element ?tr 4 ?S1 = ?S2"
    using translate_header [of ?S1 4 ?tr "[0x41]"] c1
    by (simp add: t2 r2 sA endswith_single xml_compatible_def xml_char_def line_breaks_def)
  have m: "merge_paragraphs merged_cell_doc = print Merging merged_cell_doc"
    by (simp add: merge_paragraphs_def paragraphs_def children_tagged_def print_def merged_cell_doc_def)
  have a: "print Translating_tables (print Translating_headers_footers (print Translating_body
       (print Merging merged_cell_doc))) = ?D"
    by (simp add: print_def merged_cell_doc_def)
  have f: "paragraphs (merged_cell_doc\<lparr>console := c\<rparr>) 0 = []"
    "sections (merged_cell_doc\<lparr>console := c\<rparr>) = []"
    "body (merged_cell_doc\<lparr>console := c\<rparr>) = 0" for c
    by (simp_all add: paragraphs_def children_tagged_def merged_cell_doc_def)
  have g: "tables ?D = [1]" "rows ?D 1 = [2]" "row_cells ?D 2 = [3, 3]" "paragraphs ?D 3 = [4]"
    by (simp_all add: tables_def rows_def paragraphs_def children_tagged_def merged_cell_doc_def)
  have g1: "paragraphs ?S1 3 = [4]"
    by (simp add: paragraphs_def children_tagged_def set_text_def merged_cell_doc_def)
  have cells: "process_cells ?tr [3, 3] ?D = ?S2"
    using g(4) g1 t1 t2 one two by simp
  have tbl: "process_tables ?tr (tables ?D) ?D = ?S2"
    using g(1-3) cells by simp
  have none: "iter_first ''w:txbxContent'' (print Translating_text_boxes ?S2) 0 = None"
    by (simp add: iter_first_def next_tagged_pos traverse_to_next_def back_off_pos next_sibling_def
        print_def set_text_def merged_cell_doc_def)
  have b: "body (print Translating_text_boxes ?S2) = 0"
    by (simp add: print_def set_text_def merged_cell_doc_def)
  have a0: "print Translating_body (print Merging merged_cell_doc)
     = merged_cell_doc\<lparr>console := [Merging, Translating_body]\<rparr>"
    by (simp add: print_def merged_cell_doc_def)
  have pt: "process_text_boxes ?tr 0 None (0, X) = Some (0, X)" for X
    by (subst process_text_boxes.simps) simp
  have run: "translate_and_format ?tr merged_cell_doc
     = Some (print (Processed 0) (print Translating_text_boxes ?S2))"
    unfolding translate_and_format_def Let_def m a0
    using f tbl none b pt by (simp add: print_def)
  have obs: "calls ?S2 = [(4, [0x4E59]), (4, [0x4E59, 0x28, 0x41, 0x29])]"
    "get_text ?S2 4 = [0x4E59, 0x28, 0x41, 0x29, 0x28, 0x41, 0x29, 0x3A]"
    "console ?S2 = [Merging, Translating_body, Translating_headers_footers, Translating_tables]"
    by (simp_all add: set_text_fields get_text_set_text)
  show ?thesis
    unfolding run using obs by (simp add: print_fields get_text_print)
qed

text \<open>
  Claim C8, on the document with nested text boxes and a translator that answers "A".
  The body tree of the document holds the text-box regions 3, 6 (inside 3) and 10, in
  this order. The run ends. It makes three translation calls, for the paragraphs 4 and 7
  of region 3 and once more for paragraph 7 as the paragraph of region 6, and prints
  that it has processed two text boxes. Region 10, which is in the body tree before and
  after the run, is not visited: no call is made for its paragraph 11, which keeps its
  text. (Translating paragraph 4 in place removes its run, and region 6 with it, from
  the tree; the search for the region after 6 then ends at that run.)
\<close>

theorem text_box_after_nested_one_is_not_visited:
  "\<exists>d. translate_and_format (\<lambda>h t. Inr [0x41]) nested_doc = Some d \<and>
     iter_tagged ''w:txbxContent'' nested_doc (body nested_doc) = [3, 6, 10] \<and>
     iter_tagged ''w:p'' nested_doc 10 = [11] \<and>
     calls d = [(4, [0x7532]), (7, [0x4E59]), (7, [0x4E59, 0x28, 0x41, 0x29])] \<and>
     console d = [Merging, Merged 0, Translating_body, Translating_headers_footers,
       Translating_tables, Translating_text_boxes, Processed 2] \<and>
     iter_tagged ''w:txbxContent'' d (body d) = [3, 10] \<and>
     get_text nested_doc 11 = [0x4E19, 0xFF1A] \<and> get_text d 11 = [0x4E19, 0xFF1A]"
proof -
  from nested_loop obtain d where d:
    "process_text_boxes (\<lambda>h t. Inr [0x41]) 0 (Some 3) (0, nested_doc_at_step_5) = Some (2, d)"
    "calls d = [(4, [0x7532]), (7, [0x4E59]), (7, [0x4E59, 0x28, 0x41, 0x29])]"
    "console d = console nested_doc_at_step_5" "body d = 0"
    "iter_tagged ''w:txbxContent'' d 0 = [3, 10]"
    "get_text d 11 = [0x4E19, 0xFF1A]"
    by blast
  let ?d = "print (Processed 2) d"
  have run: "translate_and_format (\<lambda>h t. Inr [0x41]) nested_doc = Some ?d"
    unfolding nested_steps first_region d(1) by simp
  have before: "iter_tagged ''w:txbxContent'' nested_doc (body nested_doc) = [3, 6, 10]"
    "iter_tagged ''w:p'' nested_doc 10 = [11]" "get_text nested_doc 11 = [0x4E19, 0xFF1A]"
    by (simp_all add: iter_tagged_def iter_pos get_text_def nested_doc_def)
  have after: "iter_tagged ''w:txbxContent'' ?d (body ?d) = [3, 10]"
    using d(4,5) by (simp add: iter_tagged_print print_fields)
  have rest: "calls ?d = [(4, [0x7532]), (7, [0x4E59]), (7, [0x4E59, 0x28, 0x41, 0x29])]"
    "console ?d = [Merging, Merged 0, Translating_body, Translating_headers_footers,
       Translating_tables, Translating_text_boxes, Processed 2]"
    "get_text ?d 11 = [0x4E19, 0xFF1A]"
    using d(2,3,6) by (simp_all add: print_fields get_text_print nested_doc_at_step_5_def)
  show ?thesis
    using run before after rest by blast
qed

end
